theory Spec2Isabelle
  imports Main "HOL-Library.Char_ord" "HOL-Library.List_Lexorder"
begin

section \<open>Python values and exceptions\<close>

text \<open>
  The exceptions that the modelled code can raise. \<open>RequestException\<close> stands for
  any failure reported by the HTTP client (\<open>requests.get\<close>, \<open>raise_for_status\<close>,
  \<open>requests.put\<close>).
\<close>

datatype py_error =
    AssertionError
  | ValueError
  | IndexError
  | UnboundLocalError
  | EOFError
  | RequestException

text \<open>
  A cleaned history record is the tuple \<open>(wcount, converted_wdate, wtime)\<close> built at
  line 101 of \<open>mal_helper.py\<close>; all three components are strings.
\<close>

type_synonym hist = "string \<times> string \<times> string"

definition wcount :: "hist \<Rightarrow> string" where
  "wcount h = fst h"

definition wdate :: "hist \<Rightarrow> string" where
  "wdate h = fst (snd h)"

definition wtime :: "hist \<Rightarrow> string" where
  "wtime h = snd (snd h)"

subsection \<open>\<open>int(str)\<close>\<close>

text \<open>
  The engine reads a count with the builtin \<open>int\<close>. In the model the builtin is an
  argument \<open>int_str\<close> of every function that calls it, directly or not: a function from
  strings to numbers whose value \<open>None\<close> stands for \<open>ValueError\<close>. The theorems
  about the engine and the session hold for every such function, so they do not depend
  on which strings \<open>int\<close> accepts.

  \<open>py_int\<close> is the builtin of CPython on the strings of this theory, whose characters
  are the code points below 256, and it is used to run the model on concrete inputs:
  surrounding whitespace is stripped (the characters 9 to 13 and 32 and, among the
  code points above 127, 133 and 160), one sign is allowed, then decimal digits
  0 to 9, where a single underscore may stand between two digits; a numeral of more
  than 4300 digits is refused (the default limit of \<open>sys.set_int_max_str_digits\<close>).
  Anything else raises \<open>ValueError\<close>.
\<close>

definition is_space :: "char \<Rightarrow> bool" where
  "is_space c =
     (let n = (of_char c :: nat) in (9 \<le> n \<and> n \<le> 13) \<or> n = 32 \<or> n = 133 \<or> n = 160)"

definition is_digit :: "char \<Rightarrow> bool" where
  "is_digit c = (let n = (of_char c :: nat) in 48 \<le> n \<and> n \<le> 57)"

definition digit_value :: "char \<Rightarrow> int" where
  "digit_value c = int (of_char c) - 48"

definition py_strip :: "string \<Rightarrow> string" where
  "py_strip s = rev (dropWhile is_space (rev (dropWhile is_space s)))"

fun py_digits :: "int \<Rightarrow> string \<Rightarrow> int option" where
  "py_digits a [] = None"
| "py_digits a (c # cs) =
     (if \<not> is_digit c then None
      else (case cs of
              [] \<Rightarrow> Some (10 * a + digit_value c)
            | d # ds \<Rightarrow>
                if d = CHR ''_'' then py_digits (10 * a + digit_value c) ds
                else py_digits (10 * a + digit_value c) cs))"

definition max_str_digits :: nat where
  "max_str_digits = 4300"

definition py_numeral :: "string \<Rightarrow> int option" where
  "py_numeral s =
     (case py_digits 0 s of
        None \<Rightarrow> None
      | Some v \<Rightarrow> if length (filter is_digit s) > max_str_digits then None else Some v)"

definition py_int :: "string \<Rightarrow> int option" where
  "py_int s =
     (case py_strip s of
        [] \<Rightarrow> None
      | c # cs \<Rightarrow>
          if c = CHR ''-'' then map_option uminus (py_numeral cs)
          else if c = CHR ''+'' then py_numeral cs
          else py_numeral (c # cs))"

subsection \<open>\<open>min\<close> and \<open>max\<close> with \<open>key=lambda x: int(x[0])\<close>\<close>

text \<open>
  Both builtins walk the list from the left, keep the first item as the current best and
  replace it only by an item whose key is strictly better, so among items of equal key
  the leftmost one is returned. An empty list raises \<open>ValueError\<close>, and so does a key
  that \<open>int\<close> rejects.
\<close>

fun best_loop ::
  "(string \<Rightarrow> int option) \<Rightarrow> (int \<Rightarrow> int \<Rightarrow> bool) \<Rightarrow> hist \<Rightarrow> int \<Rightarrow> hist list \<Rightarrow> py_error + hist" where
  "best_loop int_str better b kb [] = Inr b"
| "best_loop int_str better b kb (x # xs) =
     (case int_str (wcount x) of
        None \<Rightarrow> Inl ValueError
      | Some k \<Rightarrow>
          if better k kb then best_loop int_str better x k xs
          else best_loop int_str better b kb xs)"

definition best_by_key ::
  "(string \<Rightarrow> int option) \<Rightarrow> (int \<Rightarrow> int \<Rightarrow> bool) \<Rightarrow> hist list \<Rightarrow> py_error + hist" where
  "best_by_key int_str better xs =
     (case xs of
        [] \<Rightarrow> Inl ValueError
      | x # ys \<Rightarrow> (case int_str (wcount x) of
                     None \<Rightarrow> Inl ValueError
                   | Some k \<Rightarrow> best_loop int_str better x k ys))"

definition py_min :: "(string \<Rightarrow> int option) \<Rightarrow> hist list \<Rightarrow> py_error + hist" where
  "py_min int_str xs = best_by_key int_str (\<lambda>k kb. k < kb) xs"

definition py_max :: "(string \<Rightarrow> int option) \<Rightarrow> hist list \<Rightarrow> py_error + hist" where
  "py_max int_str xs = best_by_key int_str (\<lambda>k kb. k > kb) xs"

section \<open>The inference engine: \<open>_determine_dates\<close>\<close>

text \<open>
  The two \<open>for ... enumerate(history)\<close> loops of lines 114-119 and 127-136. Each stops
  at the first index whose record has the wanted count string; the second one skips the
  indices before \<open>start_date_index\<close>. \<open>None\<close> means that the loop ended without
  \<open>break\<close>, so that its variables were never assigned.
\<close>

definition start_loop :: "string \<Rightarrow> hist list \<Rightarrow> (nat \<times> hist) option" where
  "start_loop earliest_ep history =
     find (\<lambda>(i, h1). wcount h1 = earliest_ep) (enumerate 0 history)"

definition finish_loop :: "string \<Rightarrow> nat \<Rightarrow> hist list \<Rightarrow> (nat \<times> hist) option" where
  "finish_loop latest_ep start_date_index history =
     find (\<lambda>(j, h2). \<not> j < start_date_index \<and> wcount h2 = latest_ep) (enumerate 0 history)"

definition earliest_msg :: "string \<Rightarrow> string \<Rightarrow> string \<Rightarrow> string" where
  "earliest_msg ep d t =
     ''<<< Earliest episode/chapter '' @ ep @ '' was first watched/read at '' @ d @ '' '' @ t"

definition latest_msg :: "string \<Rightarrow> string \<Rightarrow> string \<Rightarrow> string" where
  "latest_msg ep d t =
     ''<<< Last episode/chapter '' @ ep @ '' was first watched/read at '' @ d @ '' '' @ t"

text \<open>
  Lines 110-142, on the list that line 108 has already reversed. The result is the list
  of printed lines together with the returned pair or the exception raised. The first
  loop always finds a record, because \<open>earliest_ep\<close> is the count of a record of the
  list; its \<open>None\<close> branch is kept for the shape of the code. When the second loop
  finds nothing, \<open>finish_date\<close> is unbound and the second \<open>print\<close> raises.
\<close>

definition dates_of_chronological ::
  "(string \<Rightarrow> int option) \<Rightarrow> hist list \<Rightarrow> string list \<times> (py_error + string \<times> string)" where
  "dates_of_chronological int_str history =
     (case py_min int_str history of
        Inl e \<Rightarrow> ([], Inl e)
      | Inr lo \<Rightarrow>
     (case py_max int_str history of
        Inl e \<Rightarrow> ([], Inl e)
      | Inr hi \<Rightarrow>
     (let earliest_ep = wcount lo; latest_ep = wcount hi in
      case start_loop earliest_ep history of
        None \<Rightarrow> ([], Inl UnboundLocalError)
      | Some (start_date_index, h1) \<Rightarrow>
     (let line1 = earliest_msg earliest_ep (wdate h1) (wtime h1) in
      case finish_loop latest_ep start_date_index history of
        None \<Rightarrow> ([line1], Inl UnboundLocalError)
      | Some (j, h2) \<Rightarrow>
          ([line1, latest_msg latest_ep (wdate h2) (wtime h2)],
           Inr (wdate h1, wdate h2))))))"

text \<open>\<open>_determine_dates(history)\<close>: \<open>history[::-1]\<close> is a reversed copy.\<close>

definition determine_dates ::
  "(string \<Rightarrow> int option) \<Rightarrow> hist list \<Rightarrow> string list \<times> (py_error + string \<times> string)" where
  "determine_dates int_str history = dates_of_chronological int_str (rev history)"

subsection \<open>Progress counts as numbers\<close>

text \<open>
  The specification speaks of progress counts as integers; the code keeps the count as
  the string cut out of the record and reads it with \<open>int\<close> only inside the keys of
  \<open>min\<close> and \<open>max\<close>. \<open>progress_count\<close> is the number a readable count string
  stands for, and \<open>readable\<close> says that \<open>int\<close> accepts every count of a history.
\<close>

definition progress_count :: "(string \<Rightarrow> int option) \<Rightarrow> hist \<Rightarrow> int" where
  "progress_count int_str h = the (int_str (wcount h))"

definition readable :: "(string \<Rightarrow> int option) \<Rightarrow> hist list \<Rightarrow> bool" where
  "readable int_str history = list_all (\<lambda>h. int_str (wcount h) \<noteq> None) history"

text \<open>
  A history is canonical when equal progress counts are written as equal strings, as
  they are when every count is a plain decimal numeral.
\<close>

definition canonical :: "(string \<Rightarrow> int option) \<Rightarrow> hist list \<Rightarrow> bool" where
  "canonical int_str history \<longleftrightarrow>
     (\<forall>h\<in>set history. \<forall>h'\<in>set history.
        progress_count int_str h = progress_count int_str h' \<longrightarrow> wcount h = wcount h')"

subsection \<open>The history as a list object\<close>





section \<open>The history normalizer: the loop of \<open>_get_entry_history\<close>\<close>

text \<open>\<open>line.split(" ")\<close>: every single space separates, empty parts are kept.\<close>

fun split_on :: "char \<Rightarrow> string \<Rightarrow> string list" where
  "split_on c [] = [[]]"
| "split_on c (x # xs) =
     (if x = c then [] # split_on c xs
      else (case split_on c xs of
              [] \<Rightarrow> [[x]]
            | w # ws \<Rightarrow> (x # w) # ws))"

text \<open>\<open>parts[i]\<close> for a literal index \<open>i \<ge> 0\<close>.\<close>

definition py_index :: "'a list \<Rightarrow> nat \<Rightarrow> py_error + 'a" where
  "py_index xs i = (if i < length xs then Inr (xs ! i) else Inl IndexError)"

text \<open>
  Line 99: \<open>wdate[6:] + "-" + wdate[:2] + "-" + wdate[3:5]\<close>. Slices never raise.
\<close>

definition convert_wdate :: "string \<Rightarrow> string" where
  "convert_wdate d = drop 6 d @ ''-'' @ take 2 d @ ''-'' @ take 2 (drop 3 d)"

text \<open>Lines 92-101 for one record; \<open>parts[1][:-1]\<close> drops the last character.\<close>

definition clean_record :: "string \<Rightarrow> py_error + hist" where
  "clean_record line =
     (let parts = split_on CHR '' '' line in
      case py_index parts 4 of
        Inl e \<Rightarrow> Inl e
      | Inr d \<Rightarrow>
     (case py_index parts 6 of
        Inl e \<Rightarrow> Inl e
      | Inr t \<Rightarrow>
     (case py_index parts 1 of
        Inl e \<Rightarrow> Inl e
      | Inr c \<Rightarrow> Inr (butlast c, convert_wdate d, t))))"

text \<open>The loop of lines 90-103, with \<open>cleaned_history\<close> as accumulator.\<close>

fun clean_loop :: "hist list \<Rightarrow> string list \<Rightarrow> py_error + hist list" where
  "clean_loop cleaned_history [] = Inr cleaned_history"
| "clean_loop cleaned_history (h # hs) =
     (case clean_record h of
        Inl e \<Rightarrow> Inl e
      | Inr r \<Rightarrow> clean_loop (cleaned_history @ [r]) hs)"

definition clean_history :: "string list \<Rightarrow> py_error + hist list" where
  "clean_history history = clean_loop [] history"

subsection \<open>Calendar dates and their two written forms\<close>

text \<open>
  A calendar date is a triple (year, month, day) of numbers, ordered by year, then
  month, then day. \<open>mdy_date\<close> writes it month first with a four-digit year and two
  separator characters, the form that line 99 rearranges; \<open>dmy_date\<close> writes it the
  way the specification describes the source, day first with a two-digit year;
  \<open>iso_date\<close> is \<open>YYYY-MM-DD\<close>.
\<close>

definition digit_char :: "nat \<Rightarrow> char" where
  "digit_char n = ''0123456789'' ! (n mod 10)"

definition two_digits :: "nat \<Rightarrow> string" where
  "two_digits n = [digit_char (n div 10), digit_char n]"

definition four_digits :: "nat \<Rightarrow> string" where
  "four_digits n = two_digits (n div 100) @ two_digits (n mod 100)"

definition mdy_date :: "char \<Rightarrow> char \<Rightarrow> nat \<times> nat \<times> nat \<Rightarrow> string" where
  "mdy_date s1 s2 ymd =
     (case ymd of (y, m, d) \<Rightarrow> two_digits m @ [s1] @ two_digits d @ [s2] @ four_digits y)"

definition dmy_date :: "char \<Rightarrow> char \<Rightarrow> nat \<times> nat \<times> nat \<Rightarrow> string" where
  "dmy_date s1 s2 ymd =
     (case ymd of (y, m, d) \<Rightarrow> two_digits d @ [s1] @ two_digits m @ [s2] @ two_digits (y mod 100))"

definition iso_date :: "nat \<times> nat \<times> nat \<Rightarrow> string" where
  "iso_date ymd =
     (case ymd of (y, m, d) \<Rightarrow> four_digits y @ ''-'' @ two_digits m @ ''-'' @ two_digits d)"

definition earlier :: "nat \<times> nat \<times> nat \<Rightarrow> nat \<times> nat \<times> nat \<Rightarrow> bool" where
  "earlier a b =
     (case a of (y, m, d) \<Rightarrow> case b of (y', m', d') \<Rightarrow>
        y < y' \<or> (y = y' \<and> (m < m' \<or> (m = m' \<and> d < d'))))"

definition calendar :: "nat \<times> nat \<times> nat \<Rightarrow> bool" where
  "calendar ymd = (case ymd of (y, m, d) \<Rightarrow> y < 10000 \<and> m < 100 \<and> d < 100)"

section \<open>The review session: \<open>date_fixer\<close>\<close>

subsection \<open>Entries, collaborators and the outside world\<close>

text \<open>
  One element of \<open>user_list["data"]\<close>. The two dates are optional keys of
  \<open>list_status\<close>, read with \<open>.get(..., "UNKNOWN")\<close>.
\<close>

record node =
  node_id :: int
  node_title :: string

record list_status =
  status :: string
  start_date :: "string option"
  finish_date :: "string option"

record entry =
  node :: node
  list_status :: list_status

text \<open>The dictionary passed to \<open>update_entry\<close>, in insertion order.\<close>

type_synonym updates = "(string \<times> string) list"

text \<open>
  The external collaborators, as functions of their arguments: the list request behind
  \<open>get_anime_list\<close> and \<open>get_manga_list\<close>, the request and scrape of lines 75-88
  (the texts of the \<open>spaceit_pad\<close> elements, or the exception raised on the way), and
  the \<open>requests.put\<close> of \<open>update_entry\<close> (the response as \<open>print\<close> shows it).
\<close>

record services =
  get_list :: "string \<Rightarrow> py_error + entry list"
  history_page :: "int \<Rightarrow> string \<Rightarrow> py_error + string list"
  put_my_list_status :: "int \<Rightarrow> string \<Rightarrow> updates \<Rightarrow> py_error + string"

text \<open>
  What the session does to the outside, in order: lines printed, prompts of \<open>input\<close>,
  history requests, pauses and update requests.
\<close>

datatype io =
    Print string
  | PrintUpdates updates
  | Prompt string
  | GetEntryHistory int string
  | Sleep int
  | UpdateEntry int string updates

record world =
  stdin :: "string list"
  trace :: "io list"

definition emit :: "io \<Rightarrow> world \<Rightarrow> world" where
  "emit x w = w\<lparr>trace := trace w @ [x]\<rparr>"

definition say :: "string \<Rightarrow> world \<Rightarrow> world" where
  "say s w = emit (Print s) w"

text \<open>\<open>input(prompt)\<close>: the next line of standard input, \<open>EOFError\<close> at its end.\<close>

definition py_input :: "string \<Rightarrow> world \<Rightarrow> (py_error + string) \<times> world" where
  "py_input prompt w =
     (case stdin w of
        [] \<Rightarrow> (Inl EOFError, emit (Prompt prompt) w)
      | l # ls \<Rightarrow> (Inr l, emit (Prompt prompt) (w\<lparr>stdin := ls\<rparr>)))"

text \<open>
  The local variables of \<open>date_fixer\<close> that live across iterations of its loop:
  \<open>start_from_triggered\<close>, and \<open>start_date\<close> and \<open>finish_date\<close>, which are assigned
  together at line 277 and are unbound (\<open>None\<close>) before the first assignment.
\<close>

record locals =
  start_from_triggered :: bool
  dates :: "(string \<times> string) option"

text \<open>
  How one iteration ends: by reaching the end of the body or a \<open>continue\<close>, by
  \<open>break\<close>, or by an exception, which nothing in the module catches.
\<close>

datatype flow = Next | Exit | Raise py_error

subsection \<open>Strings\<close>

text \<open>\<open>str.upper\<close> on ASCII letters.\<close>

definition upper_char :: "char \<Rightarrow> char" where
  "upper_char c =
     (let n = (of_char c :: nat) in if 97 \<le> n \<and> n \<le> 122 then char_of (n - 32) else c)"

definition py_upper :: "string \<Rightarrow> string" where
  "py_upper s = map upper_char s"

text \<open>\<open>str\<close> of an integer, as the f-strings format it.\<close>

fun str_nat :: "nat \<Rightarrow> string" where
  "str_nat n = (if n < 10 then [digit_char n] else str_nat (n div 10) @ [digit_char n])"

definition str_int :: "int \<Rightarrow> string" where
  "str_int i = (if i < 0 then CHR ''-'' # str_nat (nat (- i)) else str_nat (nat i))"

definition separator :: string where
  "separator = replicate 58 CHR ''=''"

definition manual_fix_prompt :: string where
  "manual_fix_prompt =
     ''This will require a manual fix. Type anything in to continue: '' @ [CHR 0x0A] @ ''<<< ''"

definition choice_prompt :: string where
  "choice_prompt =
     ''Type '' @ [CHR 0x27] @ ''Y'' @ [CHR 0x27] @ '' if you wish to proceed with the proposed change. ''
     @ ''Type '' @ [CHR 0x27] @ ''S'' @ [CHR 0x27] @ '' to skip the entry. ''
     @ ''Type '' @ [CHR 0x27] @ ''F'' @ [CHR 0x27] @ '' to just add the final date. ''
     @ ''Type '' @ [CHR 0x27] @ ''X'' @ [CHR 0x27] @ '' to exit:''
     @ [CHR 0x0A] @ ''<<< ''"

subsection \<open>\<open>_get_entry_history\<close> and \<open>update_entry\<close>\<close>

text \<open>
  \<open>list_modifier\<close> is assigned only for the two list types; for any other it is
  unbound where the URL is built.
\<close>

definition get_entry_history :: "services \<Rightarrow> int \<Rightarrow> string \<Rightarrow> py_error + hist list" where
  "get_entry_history sv entry_id list_type =
     (if list_type \<noteq> ''anime'' \<and> list_type \<noteq> ''manga'' then Inl UnboundLocalError
      else (case history_page sv entry_id list_type of
              Inl e \<Rightarrow> Inl e
            | Inr history \<Rightarrow> clean_history history))"

definition update_entry :: "services \<Rightarrow> int \<Rightarrow> string \<Rightarrow> updates \<Rightarrow> py_error + string" where
  "update_entry sv entry_id list_type upd = put_my_list_status sv entry_id list_type upd"

subsection \<open>The body of the loop, from its end to its beginning\<close>

text \<open>
  Lines 317-320: the update request and the report. The request is recorded in the
  trace whether or not the collaborator answers.
\<close>

definition send_update ::
  "services \<Rightarrow> string \<Rightarrow> int \<Rightarrow> updates \<Rightarrow> locals \<Rightarrow> world \<Rightarrow> flow \<times> locals \<times> world" where
  "send_update sv list_type entry_id upd loc w =
     (let w1 = emit (UpdateEntry entry_id list_type upd) w in
      case update_entry sv entry_id list_type upd of
        Inl e \<Rightarrow> (Raise e, loc, w1)
      | Inr response \<Rightarrow>
          (Next, loc,
           say separator
             (say (''<<< Sent proposed change as update request to MAL and received response code ''
                   @ response)
                (emit (PrintUpdates upd) w1))))"

text \<open>
  Lines 293-315. \<open>Y\<close> on a real proposal and \<open>F\<close> read \<open>start_date\<close> and
  \<open>finish_date\<close>; \<open>F\<close> does not look at \<open>skip_flag\<close>. The last branch is not
  reached, since the loop before it only lets the four letters through.
\<close>

definition action ::
  "services \<Rightarrow> string \<Rightarrow> int \<Rightarrow> bool \<Rightarrow> string \<Rightarrow> locals \<Rightarrow> world \<Rightarrow> flow \<times> locals \<times> world" where
  "action sv list_type entry_id skip_flag user_choice loc w =
     (if py_upper user_choice = ''Y'' then
        (if skip_flag then
           (Next, loc, say separator (say ''<<< Skipping current entry as proposed change'' w))
         else (case dates loc of
                 None \<Rightarrow> (Raise UnboundLocalError, loc, w)
               | Some (sd, fd) \<Rightarrow>
                   send_update sv list_type entry_id
                     [(''start_date'', sd), (''finish_date'', fd)] loc w))
      else if py_upper user_choice = ''F'' then
        (case dates loc of
           None \<Rightarrow> (Raise UnboundLocalError, loc, w)
         | Some (sd, fd) \<Rightarrow>
             send_update sv list_type entry_id [(''finish_date'', fd)] loc w)
      else if py_upper user_choice = ''S'' then
        (Next, loc, say separator (say ''<<< Skipping current entry on user request'' w))
      else if py_upper user_choice = ''X'' then
        (Exit, loc, say separator (say ''<<< Exiting date_fixer function'' w))
      else (Raise UnboundLocalError, loc, w))"

text \<open>Lines 281-291: ask until one of the four letters is typed.\<close>

fun await_loop :: "string list \<Rightarrow> io list \<Rightarrow> (py_error + string) \<times> string list \<times> io list" where
  "await_loop [] tr = (Inl EOFError, [], tr @ [Prompt choice_prompt])"
| "await_loop (l # ls) tr =
     (if py_upper l \<in> set [''Y'', ''S'', ''F'', ''X''] then (Inr l, ls, tr @ [Prompt choice_prompt])
      else await_loop ls
             (tr @ [Prompt choice_prompt,
                    Print (''<<< Did not understand input '' @ [CHR 0x27] @ l @ [CHR 0x27]
                           @ ''. Please try again'')]))"

definition await_choice :: "world \<Rightarrow> (py_error + string) \<times> world" where
  "await_choice w =
     (case await_loop (stdin w) (trace w) of
        (r, ins, tr) \<Rightarrow> (r, w\<lparr>stdin := ins, trace := tr\<rparr>))"

definition decide ::
  "services \<Rightarrow> string \<Rightarrow> int \<Rightarrow> bool \<Rightarrow> locals \<Rightarrow> world \<Rightarrow> flow \<times> locals \<times> world" where
  "decide sv list_type entry_id skip_flag loc w =
     (case await_choice w of
        (Inl e, w1) \<Rightarrow> (Raise e, loc, w1)
      | (Inr user_choice, w1) \<Rightarrow> action sv list_type entry_id skip_flag user_choice loc w1)"

text \<open>
  The two places that report an issue and wait for any input (lines 232-235 and
  270-273).
\<close>

definition manual_fix :: "string \<Rightarrow> locals \<Rightarrow> world \<Rightarrow> flow \<times> locals \<times> world" where
  "manual_fix issue loc w =
     (case py_input manual_fix_prompt (say issue w) of
        (Inl e, w1) \<Rightarrow> (Raise e, loc, w1)
      | (Inr _, w1) \<Rightarrow> (Next, loc, say separator w1))"

definition unknown :: string where
  "unknown = ''UNKNOWN''"

text \<open>Lines 260-278, followed by the choice and its action.\<close>

definition propose ::
  "services \<Rightarrow> (string \<Rightarrow> int option) \<Rightarrow> string \<Rightarrow> int \<Rightarrow> string \<Rightarrow> string \<Rightarrow> string \<Rightarrow> hist list \<Rightarrow>
   locals \<Rightarrow> world \<Rightarrow> flow \<times> locals \<times> world" where
  "propose sv int_str list_type entry_id entry_status entry_start_date entry_finish_date history loc w =
     (if entry_status \<noteq> ''completed'' then
        decide sv list_type entry_id True loc
          (say ''<<< Proposed change: Skip entry as the status is not completed'' w)
      else if entry_start_date \<noteq> unknown \<and> entry_finish_date \<noteq> unknown then
        decide sv list_type entry_id True loc
          (say ''<<< Proposed change: Skip entry as the start and end date are already populated'' w)
      else if length history = 0 then
        manual_fix ''<<< Found an issue. No history available'' loc w
      else (case determine_dates int_str history of
              (printed, Inl e) \<Rightarrow> (Raise e, loc, foldl (\<lambda>v s. say s v) w printed)
            | (printed, Inr (sd, fd)) \<Rightarrow>
                decide sv list_type entry_id False (loc\<lparr>dates := Some (sd, fd)\<rparr>)
                  (say (''<<< Proposed change: Set start date to '' @ sd
                        @ ''. Set finish date to '' @ fd)
                     (foldl (\<lambda>v s. say s v) w printed))))"

text \<open>Lines 249-258: the history request, its listing, and the pause.\<close>

definition history_line :: "string \<Rightarrow> hist \<Rightarrow> world \<Rightarrow> world" where
  "history_line list_type h w =
     (case h of (c, d, t) \<Rightarrow>
        if list_type = ''anime'' then
          say (''['' @ d @ '' '' @ t @ ''] Watched episode '' @ c) w
        else if list_type = ''manga'' then
          say (''['' @ d @ '' '' @ t @ ''] Read chapter '' @ c) w
        else w)"

definition retrieve ::
  "services \<Rightarrow> (string \<Rightarrow> int option) \<Rightarrow> string \<Rightarrow> int \<Rightarrow> int \<Rightarrow> string \<Rightarrow> string \<Rightarrow> string \<Rightarrow>
   locals \<Rightarrow> world \<Rightarrow> flow \<times> locals \<times> world" where
  "retrieve sv int_str list_type wait_time entry_id entry_status entry_start_date entry_finish_date loc w =
     (let w1 = emit (GetEntryHistory entry_id list_type) w in
      case get_entry_history sv entry_id list_type of
        Inl e \<Rightarrow> (Raise e, loc, w1)
      | Inr history \<Rightarrow>
          (let w2 = foldl (\<lambda>v h. history_line list_type h v) w1 history in
           if wait_time < 0 then (Raise ValueError, loc, w2)
           else propose sv int_str list_type entry_id entry_status entry_start_date entry_finish_date
                  history loc (emit (Sleep wait_time) w2)))"

text \<open>Lines 220-247: the header, the date-order check and the automatic skips.\<close>

definition header :: "nat \<Rightarrow> nat \<Rightarrow> string \<Rightarrow> string \<Rightarrow> int \<Rightarrow> string \<Rightarrow> string \<Rightarrow> string" where
  "header index entry_count entry_status entry_title entry_id entry_start_date entry_finish_date =
     str_nat (index + 1) @ ''/'' @ str_nat entry_count @ '' ['' @ py_upper entry_status @ ''] ''
     @ entry_title @ '' ('' @ str_int entry_id @ ''). ''
     @ ''Current start date: '' @ entry_start_date @ ''. ''
     @ ''Current finish date: '' @ entry_finish_date @ ''.''"

definition entry_start_date :: "entry \<Rightarrow> string" where
  "entry_start_date e = (case start_date (list_status e) of None \<Rightarrow> unknown | Some d \<Rightarrow> d)"

definition entry_finish_date :: "entry \<Rightarrow> string" where
  "entry_finish_date e = (case finish_date (list_status e) of None \<Rightarrow> unknown | Some d \<Rightarrow> d)"

definition review ::
  "services \<Rightarrow> (string \<Rightarrow> int option) \<Rightarrow> string \<Rightarrow> int \<Rightarrow> bool \<Rightarrow> nat \<Rightarrow> nat \<Rightarrow> entry \<Rightarrow>
   locals \<Rightarrow> world \<Rightarrow> flow \<times> locals \<times> world" where
  "review sv int_str list_type wait_time auto_skip entry_count index e loc w =
     (let entry_id = node_id (node e);
          entry_title = node_title (node e);
          entry_status = status (list_status e);
          w1 = say (header index entry_count entry_status entry_title entry_id
                      (entry_start_date e) (entry_finish_date e)) w
      in
      if entry_start_date e \<noteq> unknown \<and> entry_finish_date e \<noteq> unknown
         \<and> entry_start_date e > entry_finish_date e then
        manual_fix ''<<< Found an issue. Start date is after finish date'' loc w1
      else if auto_skip \<and> entry_status \<noteq> ''completed'' then
        (Next, loc, say separator (say ''<<< Skipping entry as the status is not completed'' w1))
      else if auto_skip \<and> entry_start_date e \<noteq> unknown \<and> entry_finish_date e \<noteq> unknown then
        (Next, loc,
         say separator
           (say ''<<< Skipping entry as the start and end date are already populated'' w1))
      else retrieve sv int_str list_type wait_time entry_id entry_status (entry_start_date e)
             (entry_finish_date e) loc w1)"

text \<open>
  Lines 205-218 and the rest of the body: entries before the title \<open>start_from\<close> are
  only counted.
\<close>

definition fix_entry ::
  "services \<Rightarrow> (string \<Rightarrow> int option) \<Rightarrow> string \<Rightarrow> int \<Rightarrow> bool \<Rightarrow> string option \<Rightarrow> nat \<Rightarrow> nat \<Rightarrow> entry \<Rightarrow>
   locals \<Rightarrow> world \<Rightarrow> flow \<times> locals \<times> world" where
  "fix_entry sv int_str list_type wait_time auto_skip start_from entry_count index e loc w =
     (if \<not> start_from_triggered loc \<and> Some (node_title (node e)) \<noteq> start_from then
        (Next, loc, say (''Skipped '' @ str_nat (index + 1)) w)
      else review sv int_str list_type wait_time auto_skip entry_count index e
             (loc\<lparr>start_from_triggered := True\<rparr>) w)"

subsection \<open>The loop and the whole function\<close>

fun entries_loop ::
  "services \<Rightarrow> (string \<Rightarrow> int option) \<Rightarrow> string \<Rightarrow> int \<Rightarrow> bool \<Rightarrow> string option \<Rightarrow> nat \<Rightarrow> nat \<Rightarrow> entry list \<Rightarrow>
   locals \<Rightarrow> world \<Rightarrow> py_error option \<times> locals \<times> world" where
  "entries_loop sv int_str list_type wait_time auto_skip start_from entry_count index [] loc w =
     (None, loc, w)"
| "entries_loop sv int_str list_type wait_time auto_skip start_from entry_count index (e # es) loc w =
     (case fix_entry sv int_str list_type wait_time auto_skip start_from entry_count index e loc w of
        (Next, loc1, w1) \<Rightarrow>
          entries_loop sv int_str list_type wait_time auto_skip start_from entry_count (Suc index) es loc1 w1
      | (Exit, loc1, w1) \<Rightarrow> (None, loc1, w1)
      | (Raise err, loc1, w1) \<Rightarrow> (Some err, loc1, w1))"

text \<open>
  \<open>date_fixer(list_type, wait_time, auto_skip, start_from)\<close>: the exception that ends
  the session, if any, and the world it leaves.
\<close>

definition date_fixer ::
  "services \<Rightarrow> (string \<Rightarrow> int option) \<Rightarrow> string \<Rightarrow> int \<Rightarrow> bool \<Rightarrow> string option \<Rightarrow> world \<Rightarrow> py_error option \<times> world" where
  "date_fixer sv int_str list_type wait_time auto_skip start_from w =
     (if list_type \<noteq> ''anime'' \<and> list_type \<noteq> ''manga'' then (Some AssertionError, w)
      else (case get_list sv list_type of
              Inl e \<Rightarrow> (Some e, w)
            | Inr data \<Rightarrow>
                (case entries_loop sv int_str list_type wait_time auto_skip start_from (length data) 0 data
                        \<lparr>start_from_triggered = (start_from = None), dates = None\<rparr> w of
                   (None, loc1, w1) \<Rightarrow> (None, say ''All done!'' w1)
                 | (Some err, loc1, w1) \<Rightarrow> (Some err, w1))))"

subsection \<open>Reading a trace\<close>

text \<open>
  The update requests of a trace, in order.
  \<open>entry_header\<close> is the line that announces an entry.
\<close>

fun updates_sent :: "io list \<Rightarrow> (int \<times> string \<times> updates) list" where
  "updates_sent [] = []"
| "updates_sent (UpdateEntry i t u # xs) = (i, t, u) # updates_sent xs"
| "updates_sent (x # xs) = updates_sent xs"

definition entry_header :: "nat \<Rightarrow> nat \<Rightarrow> entry \<Rightarrow> string" where
  "entry_header index entry_count e =
     header index entry_count (status (list_status e)) (node_title (node e)) (node_id (node e))
       (entry_start_date e) (entry_finish_date e)"

text \<open>
  An entry is reviewed when the resume point has been passed or is this entry
  (lines 213-218).
\<close>

definition reviewed :: "string option \<Rightarrow> locals \<Rightarrow> entry \<Rightarrow> bool" where
  "reviewed start_from loc e \<longleftrightarrow>
     start_from_triggered loc \<or> start_from = Some (node_title (node e))"

text \<open>
  The history of a reviewed entry is requested (line 250) when neither the date-order
  check nor an automatic skip has ended the iteration before.
\<close>

definition history_wanted :: "bool \<Rightarrow> entry \<Rightarrow> bool" where
  "history_wanted auto_skip e \<longleftrightarrow>
     \<not> (entry_start_date e \<noteq> unknown \<and> entry_finish_date e \<noteq> unknown
        \<and> entry_start_date e > entry_finish_date e)
     \<and> \<not> (auto_skip \<and> status (list_status e) \<noteq> ''completed'')
     \<and> \<not> (auto_skip \<and> entry_start_date e \<noteq> unknown \<and> entry_finish_date e \<noteq> unknown)"

subsection \<open>What the loop carries from entry to entry\<close>

text \<open>
  \<open>inference\<close> is the pair that line 277 assigns to \<open>start_date\<close> and
  \<open>finish_date\<close> in the iteration for a reviewed entry, and \<open>None\<close> when that
  iteration does not reach the line or \<open>_determine_dates\<close> raises.
  \<open>locals_after\<close> follows the loop's local variables through a list of entries whose
  iterations all go on to the next entry: an inferred entry replaces the pair, any
  other entry keeps it. Its \<open>dates\<close> are therefore those of the most recent inferred
  entry of the list, or the initial ones when the list has none.
\<close>

definition inference ::
  "services \<Rightarrow> (string \<Rightarrow> int option) \<Rightarrow> string \<Rightarrow> int \<Rightarrow> bool \<Rightarrow> entry \<Rightarrow>
   (string \<times> string) option" where
  "inference sv int_str list_type wait_time auto_skip e =
     (if history_wanted auto_skip e \<and> 0 \<le> wait_time
         \<and> status (list_status e) = ''completed''
         \<and> \<not> (entry_start_date e \<noteq> unknown \<and> entry_finish_date e \<noteq> unknown)
      then (case get_entry_history sv (node_id (node e)) list_type of
              Inl err \<Rightarrow> None
            | Inr history \<Rightarrow>
                if history = [] then None
                else (case snd (determine_dates int_str history) of
                        Inl err \<Rightarrow> None
                      | Inr p \<Rightarrow> Some p))
      else None)"

definition locals_step ::
  "services \<Rightarrow> (string \<Rightarrow> int option) \<Rightarrow> string \<Rightarrow> int \<Rightarrow> bool \<Rightarrow> string option \<Rightarrow>
   locals \<Rightarrow> entry \<Rightarrow> locals" where
  "locals_step sv int_str list_type wait_time auto_skip start_from loc e =
     (if reviewed start_from loc e then
        \<lparr>start_from_triggered = True,
         dates = (case inference sv int_str list_type wait_time auto_skip e of
                    None \<Rightarrow> dates loc
                  | Some p \<Rightarrow> Some p)\<rparr>
      else loc)"

fun locals_after ::
  "services \<Rightarrow> (string \<Rightarrow> int option) \<Rightarrow> string \<Rightarrow> int \<Rightarrow> bool \<Rightarrow> string option \<Rightarrow>
   locals \<Rightarrow> entry list \<Rightarrow> locals" where
  "locals_after sv int_str list_type wait_time auto_skip start_from loc [] = loc"
| "locals_after sv int_str list_type wait_time auto_skip start_from loc (e # es) =
     locals_after sv int_str list_type wait_time auto_skip start_from
       (locals_step sv int_str list_type wait_time auto_skip start_from loc e) es"

text \<open>
  The locals and the world in which the loop begins the iteration that follows the
  given entries; \<open>None\<close> when one of their iterations ends the loop by \<open>break\<close> or
  by an exception.
\<close>

fun entries_before ::
  "services \<Rightarrow> (string \<Rightarrow> int option) \<Rightarrow> string \<Rightarrow> int \<Rightarrow> bool \<Rightarrow> string option \<Rightarrow>
   nat \<Rightarrow> nat \<Rightarrow> entry list \<Rightarrow> locals \<Rightarrow> world \<Rightarrow> (locals \<times> world) option" where
  "entries_before sv int_str list_type wait_time auto_skip start_from entry_count index [] loc w =
     Some (loc, w)"
| "entries_before sv int_str list_type wait_time auto_skip start_from entry_count index (e # es) loc w =
     (case fix_entry sv int_str list_type wait_time auto_skip start_from entry_count index e loc w of
        (Next, loc1, w1) \<Rightarrow>
          entries_before sv int_str list_type wait_time auto_skip start_from entry_count (Suc index)
            es loc1 w1
      | (Exit, loc1, w1) \<Rightarrow> None
      | (Raise err, loc1, w1) \<Rightarrow> None)"

subsection \<open>Collaborators and entries for examples\<close>

text \<open>
  A list provider that returns the given entries, a history page with the given records
  for every entry, and an update endpoint that always answers 200; and an entry with
  the given id, status and dates.
\<close>

definition example_services :: "entry list \<Rightarrow> string list \<Rightarrow> services" where
  "example_services entries page =
     \<lparr>get_list = (\<lambda>t. Inr entries),
      history_page = (\<lambda>i t. Inr page),
      put_my_list_status = (\<lambda>i t u. Inr ''<Response [200]>'')\<rparr>"

definition example_entry :: "int \<Rightarrow> string \<Rightarrow> string option \<Rightarrow> string option \<Rightarrow> entry" where
  "example_entry i st sd fd =
     \<lparr>node = \<lparr>node_id = i, node_title = ''Title''\<rparr>,
      list_status = \<lparr>status = st, start_date = sd, finish_date = fd\<rparr>\<rparr>"

section \<open>Properties of the inference engine\<close>

subsection \<open>\<open>min\<close>, \<open>max\<close> and the two scans\<close>

lemma readable_Cons [simp]:
  "readable int_str (h # hs) \<longleftrightarrow> int_str (wcount h) \<noteq> None \<and> readable int_str hs"
  by (simp add: readable_def)

lemma readable_append [simp]:
  "readable int_str (xs @ ys) \<longleftrightarrow> readable int_str xs \<and> readable int_str ys"
  by (simp add: readable_def)

lemma readable_Nil [simp]: "readable int_str []"
  by (simp add: readable_def)

lemma min_loop_keeps:
  "readable int_str post \<Longrightarrow> \<forall>h\<in>set post. kb \<le> progress_count int_str h \<Longrightarrow>
   best_loop int_str (\<lambda>k kb. k < kb) b kb post = Inr b"
  by (induction post) (auto simp: progress_count_def)

lemma min_loop_first:
  "readable int_str (pre @ r # post) \<Longrightarrow> \<forall>h\<in>set pre. progress_count int_str r < progress_count int_str h \<Longrightarrow>
   progress_count int_str r < kb \<Longrightarrow> \<forall>h\<in>set post. progress_count int_str r \<le> progress_count int_str h \<Longrightarrow>
   best_loop int_str (\<lambda>k kb. k < kb) b kb (pre @ r # post) = Inr r"
proof (induction pre arbitrary: b kb)
  case Nil
  then show ?case
    by (auto simp: progress_count_def min_loop_keeps)
next
  case (Cons x pre)
  from Cons.prems obtain k where k: "int_str (wcount x) = Some k"
    by auto
  have step: "best_loop int_str (\<lambda>k kb. k < kb) b' kb' (pre @ r # post) = Inr r"
    if "progress_count int_str r < kb'" for b' kb'
    using Cons.prems that by (intro Cons.IH) auto
  from Cons.prems k have "progress_count int_str r < k"
    by (simp add: progress_count_def)
  with k step [of k x] step [of kb b] Cons.prems(3) show ?case
    by simp
qed

lemma py_min_first:
  assumes "readable int_str (pre @ r # post)"
    and "\<forall>h\<in>set pre. progress_count int_str r < progress_count int_str h"
    and "\<forall>h\<in>set post. progress_count int_str r \<le> progress_count int_str h"
  shows "py_min int_str (pre @ r # post) = Inr r"
proof (cases pre)
  case Nil
  with assms show ?thesis
    by (auto simp: py_min_def best_by_key_def progress_count_def min_loop_keeps)
next
  case (Cons x pre')
  with assms have "best_loop int_str (\<lambda>k kb. k < kb) x (progress_count int_str x) (pre' @ r # post) = Inr r"
    by (intro min_loop_first) auto
  with Cons assms show ?thesis
    by (auto simp: py_min_def best_by_key_def progress_count_def)
qed

lemma max_loop_keeps:
  "readable int_str post \<Longrightarrow> \<forall>h\<in>set post. progress_count int_str h \<le> kb \<Longrightarrow>
   best_loop int_str (\<lambda>k kb. k > kb) b kb post = Inr b"
  by (induction post) (auto simp: progress_count_def)

lemma max_loop_first:
  "readable int_str (pre @ r # post) \<Longrightarrow> \<forall>h\<in>set pre. progress_count int_str h < progress_count int_str r \<Longrightarrow>
   kb < progress_count int_str r \<Longrightarrow> \<forall>h\<in>set post. progress_count int_str h \<le> progress_count int_str r \<Longrightarrow>
   best_loop int_str (\<lambda>k kb. k > kb) b kb (pre @ r # post) = Inr r"
proof (induction pre arbitrary: b kb)
  case Nil
  then show ?case
    by (auto simp: progress_count_def max_loop_keeps)
next
  case (Cons x pre)
  from Cons.prems obtain k where k: "int_str (wcount x) = Some k"
    by auto
  have step: "best_loop int_str (\<lambda>k kb. k > kb) b' kb' (pre @ r # post) = Inr r"
    if "kb' < progress_count int_str r" for b' kb'
    using Cons.prems that by (intro Cons.IH) auto
  from Cons.prems k have "k < progress_count int_str r"
    by (simp add: progress_count_def)
  with k step [of k x] step [of kb b] Cons.prems(3) show ?case
    by simp
qed

lemma py_max_first:
  assumes "readable int_str (pre @ r # post)"
    and "\<forall>h\<in>set pre. progress_count int_str h < progress_count int_str r"
    and "\<forall>h\<in>set post. progress_count int_str h \<le> progress_count int_str r"
  shows "py_max int_str (pre @ r # post) = Inr r"
proof (cases pre)
  case Nil
  with assms show ?thesis
    by (auto simp: py_max_def best_by_key_def progress_count_def max_loop_keeps)
next
  case (Cons x pre')
  with assms have "best_loop int_str (\<lambda>k kb. k > kb) x (progress_count int_str x) (pre' @ r # post) = Inr r"
    by (intro max_loop_first) auto
  with Cons assms show ?thesis
    by (auto simp: py_max_def best_by_key_def progress_count_def)
qed

lemma find_enumerate_first:
  "\<forall>k<length pre. \<not> P (n + k, pre ! k) \<Longrightarrow> P (n + length pre, x) \<Longrightarrow>
   find P (enumerate n (pre @ x # post)) = Some (n + length pre, x)"
proof (induction pre arbitrary: n)
  case Nil
  then show ?case by simp
next
  case (Cons y pre)
  from Cons.prems(1) have head: "\<not> P (n, y)"
    by (metis add.right_neutral length_greater_0_conv list.distinct(1) nth_Cons_0)
  have "\<forall>k<length pre. \<not> P (Suc n + k, pre ! k)"
  proof (intro allI impI)
    fix k assume "k < length pre"
    then have "\<not> P (n + Suc k, (y # pre) ! Suc k)"
      using Cons.prems(1) by (metis Suc_less_eq length_Cons)
    then show "\<not> P (Suc n + k, pre ! k)" by simp
  qed
  moreover from Cons.prems(2) have "P (Suc n + length pre, x)" by simp
  ultimately have "find P (enumerate (Suc n) (pre @ x # post)) = Some (Suc n + length pre, x)"
    by (rule Cons.IH)
  with head show ?case by simp
qed

lemma find_enumerate_none:
  "\<forall>k<length xs. \<not> P (n + k, xs ! k) \<Longrightarrow> find P (enumerate n xs) = None"
proof (induction xs arbitrary: n)
  case Nil
  then show ?case by simp
next
  case (Cons y xs)
  from Cons.prems have head: "\<not> P (n, y)"
    by (metis add.right_neutral length_greater_0_conv list.distinct(1) nth_Cons_0)
  have "\<forall>k<length xs. \<not> P (Suc n + k, xs ! k)"
  proof (intro allI impI)
    fix k assume "k < length xs"
    then have "\<not> P (n + Suc k, (y # xs) ! Suc k)"
      using Cons.prems by (metis Suc_less_eq length_Cons)
    then show "\<not> P (Suc n + k, xs ! k)" by simp
  qed
  then have "find P (enumerate (Suc n) xs) = None"
    by (rule Cons.IH)
  with head show ?case by simp
qed

lemma wcount_neq:
  "progress_count int_str h \<noteq> progress_count int_str h' \<Longrightarrow> wcount h \<noteq> wcount h'"
  by (auto simp: progress_count_def)

lemma wcount_neq_less:
  "\<forall>h\<in>A. progress_count int_str x < progress_count int_str h \<Longrightarrow> \<forall>h\<in>A. wcount h \<noteq> wcount x"
  by (metis less_irrefl progress_count_def)

lemma wcount_neq_greater:
  "\<forall>h\<in>A. progress_count int_str h < progress_count int_str x \<Longrightarrow> \<forall>h\<in>A. wcount h \<noteq> wcount x"
  by (metis less_irrefl progress_count_def)

lemma start_loop_first:
  assumes "\<forall>h\<in>set older. wcount h \<noteq> wcount hs"
  shows "start_loop (wcount hs) (older @ hs # later) = Some (length older, hs)"
proof -
  have "find (\<lambda>(i, h1). wcount h1 = wcount hs) (enumerate 0 (older @ hs # later))
        = Some (0 + length older, hs)"
    using assms by (intro find_enumerate_first) auto
  then show ?thesis by (simp add: start_loop_def)
qed

lemma finish_loop_first:
  assumes "\<forall>h\<in>set mid. wcount h \<noteq> ep" and "wcount hf = ep"
  shows "finish_loop ep (length older) (older @ mid @ hf # newer)
         = Some (length older + length mid, hf)"
proof -
  have "find (\<lambda>(j, h2). \<not> j < length older \<and> wcount h2 = ep)
          (enumerate 0 ((older @ mid) @ hf # newer))
        = Some (0 + length (older @ mid), hf)"
    using assms by (intro find_enumerate_first) (auto simp: nth_append)
  then show ?thesis by (simp add: finish_loop_def)
qed

lemma finish_loop_none:
  assumes "\<forall>h\<in>set rest. wcount h \<noteq> ep"
  shows "finish_loop ep (length older) (older @ rest) = None"
proof -
  have "find (\<lambda>(j, h2). \<not> j < length older \<and> wcount h2 = ep) (enumerate 0 (older @ rest)) = None"
    using assms by (intro find_enumerate_none) (auto simp: nth_append)
  then show ?thesis by (simp add: finish_loop_def)
qed

lemma dates_of_chronological_selects:
  assumes r: "readable int_str c"
    and lo: "c = older @ hs # later"
      "\<forall>h\<in>set older. progress_count int_str hs < progress_count int_str h"
      "\<forall>h\<in>set later. progress_count int_str hs \<le> progress_count int_str h"
    and hi: "c = before @ hi # after"
      "\<forall>h\<in>set before. progress_count int_str h < progress_count int_str hi"
      "\<forall>h\<in>set after. progress_count int_str h \<le> progress_count int_str hi"
    and fin: "hs # later = mid @ hf # newer" "wcount hf = wcount hi"
      "\<forall>h\<in>set mid. wcount h \<noteq> wcount hi"
  shows "dates_of_chronological int_str c =
           ([earliest_msg (wcount hs) (wdate hs) (wtime hs),
             latest_msg (wcount hi) (wdate hf) (wtime hf)],
            Inr (wdate hs, wdate hf))"
proof -
  have mn: "py_min int_str c = Inr hs"
    using r lo py_min_first [of int_str older hs later] by simp
  have mx: "py_max int_str c = Inr hi"
    using r hi py_max_first [of int_str before hi after] by simp
  have "\<forall>h\<in>set older. wcount h \<noteq> wcount hs"
    using lo(2) by (rule wcount_neq_less)
  then have st: "start_loop (wcount hs) c = Some (length older, hs)"
    unfolding lo(1) by (rule start_loop_first)
  have "c = older @ mid @ hf # newer"
    using lo(1) fin(1) by simp
  then have fi: "finish_loop (wcount hi) (length older) c = Some (length older + length mid, hf)"
    using finish_loop_first [OF fin(3) fin(2), of older newer] by simp
  show ?thesis
    by (simp add: dates_of_chronological_def mn mx st fi)
qed

lemma dates_of_chronological_no_finish:
  assumes r: "readable int_str c"
    and lo: "c = older @ hs # later"
      "\<forall>h\<in>set older. progress_count int_str hs < progress_count int_str h"
      "\<forall>h\<in>set later. progress_count int_str hs \<le> progress_count int_str h"
    and hi: "c = before @ hi # after"
      "\<forall>h\<in>set before. progress_count int_str h < progress_count int_str hi"
      "\<forall>h\<in>set after. progress_count int_str h \<le> progress_count int_str hi"
    and none: "\<forall>h\<in>set (hs # later). wcount h \<noteq> wcount hi"
  shows "dates_of_chronological int_str c =
           ([earliest_msg (wcount hs) (wdate hs) (wtime hs)], Inl UnboundLocalError)"
proof -
  have mn: "py_min int_str c = Inr hs"
    using r lo py_min_first [of int_str older hs later] by simp
  have mx: "py_max int_str c = Inr hi"
    using r hi py_max_first [of int_str before hi after] by simp
  have "\<forall>h\<in>set older. wcount h \<noteq> wcount hs"
    using lo(2) by (rule wcount_neq_less)
  then have st: "start_loop (wcount hs) c = Some (length older, hs)"
    unfolding lo(1) by (rule start_loop_first)
  have fi: "finish_loop (wcount hi) (length older) c = None"
    unfolding lo(1) using none by (rule finish_loop_none)
  show ?thesis
    by (simp add: dates_of_chronological_def mn mx st fi)
qed

subsection \<open>Unique minimum and maximum\<close>

lemmas py_int_eval =
  py_int_def py_numeral_def max_str_digits_def py_strip_def is_space_def is_digit_def
  digit_value_def

lemmas engine_eval =
  determine_dates_def dates_of_chronological_def py_min_def py_max_def best_by_key_def
  wcount_def wdate_def wtime_def start_loop_def finish_loop_def Let_def
  earliest_msg_def latest_msg_def

text \<open>
  Claim C1, as amended. Let a history, newest first, hold exactly one record \<open>hm\<close>
  with the least progress count \<open>m\<close> and exactly one record \<open>hM\<close> with the greatest
  progress count \<open>M\<close>, where \<open>m < M\<close>, every other count lies strictly between them,
  and \<open>hM\<close> is newer than \<open>hm\<close> (it stands before \<open>hm\<close> in the newest-first
  list, so that it occurs after the start event in chronological order). Then
  \<open>_determine_dates\<close> returns the date of \<open>hm\<close> as start and the date of \<open>hM\<close> as
  finish. The counts are the numbers that \<open>int\<close> gives for the count strings, for
  whatever strings \<open>int\<close> accepts.
\<close>

theorem determine_dates_unique_extremes:
  assumes shape: "history = newer @ hM # between @ hm # older"
    and m: "int_str (wcount hm) = Some m"
    and M: "int_str (wcount hM) = Some M"
    and lt: "m < M"
    and others: "\<forall>h\<in>set (newer @ between @ older).
                   \<exists>v. int_str (wcount h) = Some v \<and> m < v \<and> v < M"
  shows "snd (determine_dates int_str history) = Inr (wdate hm, wdate hM)"
proof -
  let ?c = "rev history"
  have pm: "progress_count int_str hm = m" and pM: "progress_count int_str hM = M"
    using m M by (simp_all add: progress_count_def)
  have bounds: "m < progress_count int_str h \<and> progress_count int_str h < M \<and> int_str (wcount h) \<noteq> None"
    if "h \<in> set newer \<union> set between \<union> set older" for h
  proof -
    from that have "h \<in> set (newer @ between @ older)" by auto
    with others obtain v where "int_str (wcount h) = Some v" "m < v" "v < M" by blast
    then show ?thesis by (simp add: progress_count_def)
  qed
  have r: "readable int_str ?c"
    using shape m M bounds by (auto simp: readable_def list_all_iff)
  have c1: "?c = rev older @ hm # (rev between @ hM # rev newer)"
    using shape by simp
  have c2: "?c = (rev older @ hm # rev between) @ hM # rev newer"
    using shape by simp
  have c3: "hm # (rev between @ hM # rev newer) = (hm # rev between) @ hM # rev newer"
    by simp
  have "dates_of_chronological int_str ?c =
          ([earliest_msg (wcount hm) (wdate hm) (wtime hm),
            latest_msg (wcount hM) (wdate hM) (wtime hM)],
           Inr (wdate hm, wdate hM))"
  proof (rule dates_of_chronological_selects [OF r c1 _ _ c2 _ _ c3])
    show "\<forall>h\<in>set (rev older). progress_count int_str hm < progress_count int_str h"
      using bounds pm by auto
    show "\<forall>h\<in>set (rev between @ hM # rev newer). progress_count int_str hm \<le> progress_count int_str h"
      using bounds pm pM lt by (fastforce intro: less_imp_le)
    show "\<forall>h\<in>set (rev older @ hm # rev between). progress_count int_str h < progress_count int_str hM"
      using bounds pm pM lt by auto
    show "\<forall>h\<in>set (rev newer). progress_count int_str h \<le> progress_count int_str hM"
      using bounds pM by (fastforce intro: less_imp_le)
    show "wcount hM = wcount hM" ..
    have "\<forall>h\<in>set (hm # rev between). progress_count int_str h < progress_count int_str hM"
      using bounds pm pM lt by auto
    then show "\<forall>h\<in>set (hm # rev between). wcount h \<noteq> wcount hM"
      by (rule wcount_neq_greater)
  qed
  then show ?thesis by (simp add: determine_dates_def)
qed

text \<open>Scenario A of the specification is the instance with counts 3, 2, 1.\<close>

theorem determine_dates_unique_extremes_witness:
  "snd (determine_dates py_int
     [(''3'', ''2021-01-05'', ''10:00''), (''2'', ''2021-01-04'', ''09:00''),
      (''1'', ''2021-01-03'', ''08:00'')]) = Inr (''2021-01-03'', ''2021-01-05'')"
  using determine_dates_unique_extremes
    [of "[(''3'', ''2021-01-05'', ''10:00''), (''2'', ''2021-01-04'', ''09:00''),
          (''1'', ''2021-01-03'', ''08:00'')]"
        "[]" "(''3'', ''2021-01-05'', ''10:00'')" "[(''2'', ''2021-01-04'', ''09:00'')]"
        "(''1'', ''2021-01-03'', ''08:00'')" "[]" py_int 1 3]
  by (simp add: py_int_eval wcount_def wdate_def)

text \<open>
  Without the condition on the order of the two records the statement fails: in the
  history below, newest first, the count 1 is the unique minimum and 3 the unique
  maximum, but the record with count 3 is the oldest one. The second scan starts at the
  record with count 1, finds no record with count 3, and the \<open>print\<close> of line 137
  reads the unassigned \<open>finish_date\<close>.
\<close>

theorem determine_dates_unique_extremes_counterexample:
  "py_int ''1'' = Some 1 \<and> py_int ''2'' = Some 2 \<and> py_int ''3'' = Some 3 \<and>
   snd (determine_dates py_int
     [(''1'', ''2021-01-05'', ''10:00''), (''2'', ''2021-01-04'', ''09:00''),
      (''3'', ''2021-01-03'', ''08:00'')]) = Inl UnboundLocalError"
  by (simp add: py_int_eval engine_eval enumerate_eq_zip)

subsection \<open>Ties between equal progress counts\<close>

lemma best_loop_total:
  "readable int_str xs \<Longrightarrow> \<exists>r. best_loop int_str better b kb xs = Inr r"
  by (induction xs arbitrary: b kb) auto

lemma py_max_total:
  assumes "readable int_str xs" and "xs \<noteq> []"
  shows "\<exists>r. py_max int_str xs = Inr r"
proof -
  from assms(2) obtain x ys where xs: "xs = x # ys"
    by (cases xs) auto
  with assms(1) obtain k where k: "int_str (wcount x) = Some k"
    by auto
  from assms(1) xs have "readable int_str ys"
    by simp
  then obtain r where "best_loop int_str (\<lambda>k kb. k > kb) x k ys = Inr r"
    using best_loop_total by blast
  with xs k have "py_max int_str xs = Inr r"
    by (simp add: py_max_def best_by_key_def)
  then show ?thesis
    by (rule exI)
qed

lemma dates_of_chronological_start:
  assumes r: "readable int_str c"
    and lo: "c = older @ hs # later"
      "\<forall>h\<in>set older. progress_count int_str hs < progress_count int_str h"
      "\<forall>h\<in>set later. progress_count int_str hs \<le> progress_count int_str h"
  shows "(\<exists>rest. fst (dates_of_chronological int_str c) =
                 earliest_msg (wcount hs) (wdate hs) (wtime hs) # rest)
         \<and> (\<forall>sd fd. snd (dates_of_chronological int_str c) = Inr (sd, fd) \<longrightarrow> sd = wdate hs)"
proof -
  have mn: "py_min int_str c = Inr hs"
    using r lo py_min_first [of int_str older hs later] by simp
  have "c \<noteq> []"
    using lo(1) by simp
  with r obtain hi where mx: "py_max int_str c = Inr hi"
    using py_max_total by blast
  have "\<forall>h\<in>set older. wcount h \<noteq> wcount hs"
    using lo(2) by (rule wcount_neq_less)
  then have st: "start_loop (wcount hs) c = Some (length older, hs)"
    unfolding lo(1) by (rule start_loop_first)
  show ?thesis
    by (cases "finish_loop (wcount hi) (length older) c")
       (auto simp: dates_of_chronological_def mn mx st)
qed

lemma determine_dates_finish_after_start:
  assumes r: "readable int_str history"
    and canon: "canonical int_str history"
    and lo: "rev history = older @ hs # later"
      "\<forall>h\<in>set older. progress_count int_str hs < progress_count int_str h"
      "\<forall>h\<in>set later. progress_count int_str hs \<le> progress_count int_str h"
    and fin: "hs # later = mid @ hf # newer"
      "\<forall>h\<in>set history. progress_count int_str h \<le> progress_count int_str hf"
      "\<forall>h\<in>set mid. progress_count int_str h < progress_count int_str hf"
  shows "snd (determine_dates int_str history) = Inr (wdate hs, wdate hf)"
proof -
  let ?c = "rev history"
  have rc: "readable int_str ?c"
    using r by (simp add: readable_def)
  have "hf \<in> set (hs # later)"
    unfolding fin(1) by simp
  then have hf_in: "hf \<in> set ?c"
    unfolding lo(1) by auto
  then have "\<exists>x\<in>set ?c. progress_count int_str x = progress_count int_str hf"
    by blast
  then obtain before hi after where
    split: "?c = before @ hi # after"
    and hi: "progress_count int_str hi = progress_count int_str hf"
    and first: "\<forall>y\<in>set before. progress_count int_str y \<noteq> progress_count int_str hf"
    using split_list_first_prop [of ?c "\<lambda>x. progress_count int_str x = progress_count int_str hf"]
    by blast
  have all_le: "progress_count int_str h \<le> progress_count int_str hi" if "h \<in> set ?c" for h
    using fin(2) that hi by simp
  have before_lt: "\<forall>h\<in>set before. progress_count int_str h < progress_count int_str hi"
  proof
    fix h assume h: "h \<in> set before"
    then have "h \<in> set ?c" unfolding split by simp
    then have "progress_count int_str h \<le> progress_count int_str hi" by (rule all_le)
    moreover from first h hi have "progress_count int_str h \<noteq> progress_count int_str hi" by simp
    ultimately show "progress_count int_str h < progress_count int_str hi" by simp
  qed
  have after_le: "\<forall>h\<in>set after. progress_count int_str h \<le> progress_count int_str hi"
  proof
    fix h assume "h \<in> set after"
    then have "h \<in> set ?c" unfolding split by simp
    then show "progress_count int_str h \<le> progress_count int_str hi" by (rule all_le)
  qed
  have "hi \<in> set ?c"
    unfolding split by simp
  then have hi_in: "hi \<in> set history"
    by simp
  from hf_in have hf_in': "hf \<in> set history"
    by simp
  from canon hf_in' hi_in
  have "progress_count int_str hf = progress_count int_str hi \<longrightarrow> wcount hf = wcount hi"
    unfolding canonical_def by blast
  with hi have same: "wcount hf = wcount hi"
    by simp
  have "\<forall>h\<in>set mid. progress_count int_str h < progress_count int_str hi"
    using fin(3) hi by simp
  then have mid: "\<forall>h\<in>set mid. wcount h \<noteq> wcount hi"
    by (rule wcount_neq_greater)
  have "dates_of_chronological int_str ?c =
          ([earliest_msg (wcount hs) (wdate hs) (wtime hs),
            latest_msg (wcount hi) (wdate hf) (wtime hf)],
           Inr (wdate hs, wdate hf))"
    by (rule dates_of_chronological_selects
          [OF rc lo(1) lo(2) lo(3) split before_lt after_le fin(1) same mid])
  then show ?thesis by (simp add: determine_dates_def)
qed

text \<open>
  Claim C5, as amended. In a history all of whose counts \<open>int\<close> accepts, let \<open>hs\<close> be
  the chronologically earliest record with the least progress count; records with the
  same count may follow it. Then the line that \<open>_determine_dates\<close> prints first names
  \<open>hs\<close> as the start event, and every pair it returns has the date of \<open>hs\<close> as start,
  never the date of a later record with that count. If, moreover, equal counts are
  written as equal strings and \<open>hf\<close> is the chronologically earliest record with the
  greatest progress count among the records at or after \<open>hs\<close>, the pair returned is the
  date of \<open>hs\<close> and the date of \<open>hf\<close>, whatever records before \<open>hs\<close> carry the greatest
  count.
\<close>

theorem determine_dates_earliest_instances:
  assumes r: "readable int_str history"
    and lo: "rev history = older @ hs # later"
      "\<forall>h\<in>set older. progress_count int_str hs < progress_count int_str h"
      "\<forall>h\<in>set later. progress_count int_str hs \<le> progress_count int_str h"
  shows "(\<exists>rest. fst (determine_dates int_str history) =
                 earliest_msg (wcount hs) (wdate hs) (wtime hs) # rest)
         \<and> (\<forall>sd fd. snd (determine_dates int_str history) = Inr (sd, fd) \<longrightarrow> sd = wdate hs)
         \<and> (canonical int_str history
              \<and> hs # later = mid @ hf # newer
              \<and> (\<forall>h\<in>set history. progress_count int_str h \<le> progress_count int_str hf)
              \<and> (\<forall>h\<in>set mid. progress_count int_str h < progress_count int_str hf)
              \<longrightarrow> snd (determine_dates int_str history) = Inr (wdate hs, wdate hf))"
proof -
  have rc: "readable int_str (rev history)"
    using r by (simp add: readable_def)
  have start: "(\<exists>rest. fst (determine_dates int_str history) =
                   earliest_msg (wcount hs) (wdate hs) (wtime hs) # rest)
         \<and> (\<forall>sd fd. snd (determine_dates int_str history) = Inr (sd, fd) \<longrightarrow> sd = wdate hs)"
    unfolding determine_dates_def
    by (rule dates_of_chronological_start [OF rc lo])
  have finish: "snd (determine_dates int_str history) = Inr (wdate hs, wdate hf)"
    if "canonical int_str history" and "hs # later = mid @ hf # newer"
      and "\<forall>h\<in>set history. progress_count int_str h \<le> progress_count int_str hf"
      and "\<forall>h\<in>set mid. progress_count int_str h < progress_count int_str hf"
    using r that(1) lo that(2,3,4) by (rule determine_dates_finish_after_start)
  from start finish show ?thesis
    by blast
qed

text \<open>
  In chronological order the counts below are 3, 1, 1, 3: the start is the first of the
  two records with count 1, the finish the record with count 3 that follows it.
\<close>

theorem determine_dates_earliest_instances_witness:
  "(\<exists>rest. fst (determine_dates py_int
       [(''3'', ''2021-01-06'', ''10:00''), (''1'', ''2021-01-05'', ''10:00''),
        (''1'', ''2021-01-04'', ''10:00''), (''3'', ''2021-01-03'', ''10:00'')]) =
       earliest_msg ''1'' ''2021-01-04'' ''10:00'' # rest)
   \<and> snd (determine_dates py_int
       [(''3'', ''2021-01-06'', ''10:00''), (''1'', ''2021-01-05'', ''10:00''),
        (''1'', ''2021-01-04'', ''10:00''), (''3'', ''2021-01-03'', ''10:00'')])
     = Inr (''2021-01-04'', ''2021-01-06'')"
proof -
  let ?H = "[(''3'', ''2021-01-06'', ''10:00''), (''1'', ''2021-01-05'', ''10:00''),
             (''1'', ''2021-01-04'', ''10:00''), (''3'', ''2021-01-03'', ''10:00'')]"
  let ?older = "[(''3'', ''2021-01-03'', ''10:00'')]"
  let ?hs = "(''1'', ''2021-01-04'', ''10:00'')"
  let ?later = "[(''1'', ''2021-01-05'', ''10:00''), (''3'', ''2021-01-06'', ''10:00'')]"
  let ?mid = "[(''1'', ''2021-01-04'', ''10:00''), (''1'', ''2021-01-05'', ''10:00'')]"
  let ?hf = "(''3'', ''2021-01-06'', ''10:00'')"
  have pc: "progress_count py_int (''3'', d, t) = 3" "progress_count py_int (''1'', d, t) = 1"
    for d t
    by (simp_all add: progress_count_def py_int_eval wcount_def)
  have r: "readable py_int ?H"
    by (simp add: py_int_eval wcount_def)
  have c: "canonical py_int ?H"
    by (simp add: canonical_def wcount_def pc)
  have lo: "rev ?H = ?older @ ?hs # ?later"
    by simp
  have l1: "\<forall>h\<in>set ?older. progress_count py_int ?hs < progress_count py_int h"
    by (simp add: pc)
  have l2: "\<forall>h\<in>set ?later. progress_count py_int ?hs \<le> progress_count py_int h"
    by (simp add: pc)
  have f1: "?hs # ?later = ?mid @ ?hf # []"
    by simp
  have f2: "\<forall>h\<in>set ?H. progress_count py_int h \<le> progress_count py_int ?hf"
    by (simp add: pc)
  have f3: "\<forall>h\<in>set ?mid. progress_count py_int h < progress_count py_int ?hf"
    by (simp add: pc)
  note th = determine_dates_earliest_instances [OF r lo l1 l2, where mid = ?mid and hf = ?hf
      and newer = "[]"]
  from th have 1: "\<exists>rest. fst (determine_dates py_int ?H) =
                     earliest_msg (wcount ?hs) (wdate ?hs) (wtime ?hs) # rest"
    by blast
  from th c f1 f2 f3 have 2: "snd (determine_dates py_int ?H) = Inr (wdate ?hs, wdate ?hf)"
    by blast
  from 1 2 show ?thesis
    by (simp add: wcount_def wdate_def wtime_def)
qed

text \<open>
  The finish is not the chronologically earliest record with the greatest count: in
  the first history below, count 3 is first recorded on 2021-01-03, before the start
  event, and the finish returned is the later record of 2021-01-05. In the second one
  the count 3 is written \<open>03\<close> on 2021-01-05, after the start event, and as \<open>3\<close>
  before and after that; the scan compares the strings, passes over \<open>03\<close> and returns
  2021-01-06.
\<close>

theorem determine_dates_earliest_instances_counterexample:
  "snd (determine_dates py_int
     [(''3'', ''2021-01-05'', ''10:00''), (''1'', ''2021-01-04'', ''09:00''),
      (''3'', ''2021-01-03'', ''08:00'')]) = Inr (''2021-01-04'', ''2021-01-05'')
   \<and> py_int ''03'' = Some 3 \<and> py_int ''3'' = Some 3
   \<and> snd (determine_dates py_int
     [(''3'', ''2021-01-06'', ''10:00''), (''03'', ''2021-01-05'', ''10:00''),
      (''1'', ''2021-01-04'', ''09:00''), (''3'', ''2021-01-03'', ''08:00'')])
     = Inr (''2021-01-04'', ''2021-01-06'')"
  by (simp add: py_int_eval engine_eval enumerate_eq_zip)

subsection \<open>The engine does not change its argument\<close>




section \<open>Properties of the normalizer\<close>

subsection \<open>Fixed-width decimal strings compare like numbers\<close>

lemma less_by_div_mod:
  fixes a b c :: nat
  assumes "0 < c"
  shows "a < b \<longleftrightarrow> a div c < b div c \<or> (a div c = b div c \<and> a mod c < b mod c)"
proof -
  have a: "a = c * (a div c) + a mod c" and b: "b = c * (b div c) + b mod c"
    by simp_all
  have ra: "a mod c < c" and rb: "b mod c < c"
    using assms by simp_all
  show ?thesis
  proof (cases "a div c = b div c")
    case True
    then show ?thesis
      by (metis a b nat_add_left_cancel_less less_irrefl)
  next
    case False
    show ?thesis
    proof (cases "a div c < b div c")
      case True
      then have "Suc (a div c) \<le> b div c" by simp
      then have "c * Suc (a div c) \<le> c * (b div c)" by (rule mult_le_mono2)
      moreover have "a < c * Suc (a div c)" using a ra by (metis add_less_cancel_left mult_Suc_right add.commute)
      moreover have "c * (b div c) \<le> b" by simp
      ultimately have "a < b" by linarith
      with True show ?thesis by simp
    next
      case F2: False
      with False have "b div c < a div c" by simp
      then have "Suc (b div c) \<le> a div c" by simp
      then have "c * Suc (b div c) \<le> c * (a div c)" by (rule mult_le_mono2)
      moreover have "b < c * Suc (b div c)" using b rb by (metis add_less_cancel_left mult_Suc_right add.commute)
      moreover have "c * (a div c) \<le> a" by simp
      ultimately have "b < a" by linarith
      with False F2 show ?thesis by simp
    qed
  qed
qed

lemma eq_by_div_mod:
  fixes a b c :: nat
  shows "a = b \<longleftrightarrow> a div c = b div c \<and> a mod c = b mod c"
  by (metis mult_div_mod_eq)

lemma of_char_digit_char: "of_char (digit_char n) = (48 + n mod 10 :: nat)"
proof -
  have "n mod 10 < 10" by simp
  then consider "n mod 10 = 0" | "n mod 10 = 1" | "n mod 10 = 2" | "n mod 10 = 3"
    | "n mod 10 = 4" | "n mod 10 = 5" | "n mod 10 = 6" | "n mod 10 = 7"
    | "n mod 10 = 8" | "n mod 10 = 9"
    by atomize_elim arith
  then show ?thesis
    by cases (simp_all add: digit_char_def)
qed

lemma digit_char_less: "digit_char a < digit_char b \<longleftrightarrow> a mod 10 < b mod 10"
  by (simp add: less_char_def of_char_digit_char)

lemma digit_char_eq: "digit_char a = digit_char b \<longleftrightarrow> a mod 10 = b mod 10"
proof
  assume "digit_char a = digit_char b"
  then have "(of_char (digit_char a) :: nat) = of_char (digit_char b)" by simp
  then show "a mod 10 = b mod 10" by (simp add: of_char_digit_char)
next
  assume "a mod 10 = b mod 10"
  then show "digit_char a = digit_char b" by (simp add: digit_char_def)
qed

lemma two_digits_less:
  assumes "n < 100" "k < 100"
  shows "two_digits n < two_digits k \<longleftrightarrow> n < k"
proof -
  have "n div 10 < 10" "k div 10 < 10" using assms by simp_all
  then have d: "(n div 10) mod 10 = n div 10" "(k div 10) mod 10 = k div 10" by simp_all
  have "two_digits n < two_digits k \<longleftrightarrow>
          n div 10 < k div 10 \<or> (n div 10 = k div 10 \<and> n mod 10 < k mod 10)"
    by (simp add: two_digits_def digit_char_less digit_char_eq d)
  also have "\<dots> \<longleftrightarrow> n < k"
    using less_by_div_mod [of 10 n k] by simp
  finally show ?thesis .
qed

lemma two_digits_eq:
  assumes "n < 100" "k < 100"
  shows "two_digits n = two_digits k \<longleftrightarrow> n = k"
proof -
  have "n div 10 < 10" "k div 10 < 10" using assms by simp_all
  then have d: "(n div 10) mod 10 = n div 10" "(k div 10) mod 10 = k div 10" by simp_all
  have "two_digits n = two_digits k \<longleftrightarrow> n div 10 = k div 10 \<and> n mod 10 = k mod 10"
    by (simp add: two_digits_def digit_char_eq d)
  also have "\<dots> \<longleftrightarrow> n = k"
    using eq_by_div_mod [of n k 10] by simp
  finally show ?thesis .
qed

lemma length_two_digits [simp]: "length (two_digits n) = 2"
  by (simp add: two_digits_def)

lemma length_four_digits [simp]: "length (four_digits n) = 4"
  by (simp add: four_digits_def)

lemma append_less_same_length:
  "length xs = length ys \<Longrightarrow> xs @ us < ys @ vs \<longleftrightarrow> xs < ys \<or> (xs = ys \<and> us < vs)"
  for xs ys :: "'a::order list"
  by (induction xs ys rule: list_induct2) auto

lemma four_digits_less:
  assumes "n < 10000" "k < 10000"
  shows "four_digits n < four_digits k \<longleftrightarrow> n < k"
proof -
  have b: "n div 100 < 100" "k div 100 < 100" "n mod 100 < 100" "k mod 100 < 100"
    using assms by simp_all
  have "four_digits n < four_digits k \<longleftrightarrow>
          n div 100 < k div 100 \<or> (n div 100 = k div 100 \<and> n mod 100 < k mod 100)"
    by (simp add: four_digits_def append_less_same_length two_digits_less two_digits_eq b)
  also have "\<dots> \<longleftrightarrow> n < k"
    using less_by_div_mod [of 100 n k] by simp
  finally show ?thesis .
qed

lemma four_digits_eq:
  assumes "n < 10000" "k < 10000"
  shows "four_digits n = four_digits k \<longleftrightarrow> n = k"
proof -
  have b: "n div 100 < 100" "k div 100 < 100" "n mod 100 < 100" "k mod 100 < 100"
    using assms by simp_all
  have "four_digits n = four_digits k \<longleftrightarrow> n div 100 = k div 100 \<and> n mod 100 = k mod 100"
    by (simp add: four_digits_def two_digits_eq b)
  also have "\<dots> \<longleftrightarrow> n = k"
    using eq_by_div_mod [of n k 100] by simp
  finally show ?thesis .
qed

lemma iso_date_less:
  assumes "calendar a" "calendar b"
  shows "iso_date a < iso_date b \<longleftrightarrow> earlier a b"
proof -
  obtain y m d where a: "a = (y, m, d)" by (cases a)
  obtain y' m' d' where b: "b = (y', m', d')" by (cases b)
  from assms a b have r: "y < 10000" "m < 100" "d < 100" "y' < 10000" "m' < 100" "d' < 100"
    by (simp_all add: calendar_def)
  have "iso_date a < iso_date b \<longleftrightarrow>
          four_digits y < four_digits y' \<or>
          (four_digits y = four_digits y' \<and>
             (two_digits m < two_digits m' \<or>
              (two_digits m = two_digits m' \<and> two_digits d < two_digits d')))"
    by (simp add: a b iso_date_def append_less_same_length)
  also have "\<dots> \<longleftrightarrow> earlier a b"
    by (simp add: a b earlier_def four_digits_less four_digits_eq two_digits_less two_digits_eq r)
  finally show ?thesis .
qed

lemma convert_wdate_mdy: "convert_wdate (mdy_date s1 s2 a) = iso_date a"
  by (cases a) (simp add: convert_wdate_def mdy_date_def iso_date_def two_digits_def)

lemma clean_record_layout:
  assumes "split_on CHR '' '' line = parts" and "6 < length parts"
  shows "clean_record line = Inr (butlast (parts ! 1), convert_wdate (parts ! 4), parts ! 6)"
  using assms by (simp add: clean_record_def py_index_def Let_def)

subsection \<open>The date conversion\<close>

text \<open>
  Claim C6, as amended. For two raw records with at least seven space-separated tokens
  whose date token (index 4) is written month first with a four-digit year, two digits,
  a separator, two digits, a separator, four digits, the normalizer returns records
  whose dates are the \<open>YYYY-MM-DD\<close> forms, and comparing the two produced strings
  agrees with the order of the two calendar dates.
\<close>

theorem clean_record_iso_order:
  assumes "split_on CHR '' '' line = parts" and "6 < length parts"
    and "parts ! 4 = mdy_date s1 s2 a" and "calendar a"
    and "split_on CHR '' '' line' = parts'" and "6 < length parts'"
    and "parts' ! 4 = mdy_date s1' s2' b" and "calendar b"
  shows "\<exists>r r'. clean_record line = Inr r \<and> clean_record line' = Inr r'
           \<and> wdate r = iso_date a \<and> wdate r' = iso_date b
           \<and> (wdate r < wdate r' \<longleftrightarrow> earlier a b)"
proof -
  have 1: "clean_record line = Inr (butlast (parts ! 1), iso_date a, parts ! 6)"
    using clean_record_layout [OF assms(1,2)] assms(3) by (simp add: convert_wdate_mdy)
  have 2: "clean_record line' = Inr (butlast (parts' ! 1), iso_date b, parts' ! 6)"
    using clean_record_layout [OF assms(5,6)] assms(7) by (simp add: convert_wdate_mdy)
  show ?thesis
    using 1 2 iso_date_less [OF assms(4) assms(8)] by (simp add: wdate_def)
qed

theorem clean_record_iso_order_witness:
  "\<exists>r r'. clean_record ''Ep 1, watched on 01/17/2021 at 21:13'' = Inr r
         \<and> clean_record ''Ep 2, watched on 02/05/2021 at 10:00'' = Inr r'
         \<and> wdate r = ''2021-01-17'' \<and> wdate r' = ''2021-02-05''
         \<and> (wdate r < wdate r' \<longleftrightarrow> earlier (2021, 1, 17) (2021, 2, 5))"
proof -
  have s1: "split_on CHR '' '' ''Ep 1, watched on 01/17/2021 at 21:13''
            = [''Ep'', ''1,'', ''watched'', ''on'', ''01/17/2021'', ''at'', ''21:13'']"
    by simp
  have s2: "split_on CHR '' '' ''Ep 2, watched on 02/05/2021 at 10:00''
            = [''Ep'', ''2,'', ''watched'', ''on'', ''02/05/2021'', ''at'', ''10:00'']"
    by simp
  have l1: "6 < length [''Ep'', ''1,'', ''watched'', ''on'', ''01/17/2021'', ''at'', ''21:13'']"
    by simp
  have l2: "6 < length [''Ep'', ''2,'', ''watched'', ''on'', ''02/05/2021'', ''at'', ''10:00'']"
    by simp
  have d1: "[''Ep'', ''1,'', ''watched'', ''on'', ''01/17/2021'', ''at'', ''21:13''] ! 4
            = mdy_date CHR ''/'' CHR ''/'' (2021, 1, 17)"
    by (simp add: mdy_date_def two_digits_def four_digits_def digit_char_def)
  have d2: "[''Ep'', ''2,'', ''watched'', ''on'', ''02/05/2021'', ''at'', ''10:00''] ! 4
            = mdy_date CHR ''/'' CHR ''/'' (2021, 2, 5)"
    by (simp add: mdy_date_def two_digits_def four_digits_def digit_char_def)
  have c1: "calendar (2021, 1, 17)" and c2: "calendar (2021, 2, 5)"
    by (simp_all add: calendar_def)
  have i1: "iso_date (2021, 1, 17) = ''2021-01-17''" and i2: "iso_date (2021, 2, 5) = ''2021-02-05''"
    by (simp_all add: iso_date_def two_digits_def four_digits_def digit_char_def)
  show ?thesis
    using clean_record_iso_order [OF s1 l1 d1 c1 s2 l2 d2 c2] unfolding i1 i2 .
qed

text \<open>
  For the source form that the claim names, day first with a two-digit year, line 99
  produces year-day-month with a two-digit year: 17 January 2021 becomes
  \<open>21-17-01\<close>, 5 February 2021 becomes \<open>21-05-02\<close>, and the later date compares
  smaller.
\<close>

theorem clean_record_day_first_counterexample:
  "dmy_date CHR ''-'' CHR ''-'' (2021, 1, 17) = ''17-01-21''
   \<and> dmy_date CHR ''-'' CHR ''-'' (2021, 2, 5) = ''05-02-21''
   \<and> earlier (2021, 1, 17) (2021, 2, 5)
   \<and> clean_record ''Ep 1, watched on 17-01-21 at 21:13'' = Inr (''1'', ''21-17-01'', ''21:13'')
   \<and> clean_record ''Ep 2, watched on 05-02-21 at 10:00'' = Inr (''2'', ''21-05-02'', ''10:00'')
   \<and> \<not> (''21-17-01'' < ''21-05-02'')"
  by (simp add: dmy_date_def two_digits_def digit_char_def earlier_def clean_record_def
        py_index_def convert_wdate_def)

section \<open>Properties of the session\<close>

lemmas session_eval =
  date_fixer_def fix_entry_def review_def retrieve_def propose_def decide_def await_choice_def
  action_def send_update_def update_entry_def manual_fix_def py_input_def get_entry_history_def
  clean_history_def clean_record_def py_index_def convert_wdate_def history_line_def
  header_def entry_start_date_def entry_finish_date_def unknown_def emit_def say_def
  py_upper_def upper_char_def str_int_def digit_char_def separator_def

subsection \<open>A finish that cannot be determined\<close>

text \<open>
  Claim C2, at a failing input. The history below, newest first, records count 3 before
  count 1. The second scan starts at the record with count 1 and finds no record with
  count 3, so \<open>finish_date\<close> is never assigned and the \<open>print\<close> of line 137 raises
  \<open>UnboundLocalError\<close> after the first line has been printed. Nothing in
  \<open>date_fixer\<close> catches it: a session over a list with one such entry ends with that
  exception.
\<close>

theorem indeterminate_finish_raises:
  "determine_dates py_int [(''1'', ''2021-01-04'', ''09:00''), (''3'', ''2021-01-03'', ''08:00'')]
     = ([''<<< Earliest episode/chapter 1 was first watched/read at 2021-01-04 09:00''],
        Inl UnboundLocalError)
   \<and> fst (date_fixer
        \<lparr>get_list = (\<lambda>t. Inr [\<lparr>node = \<lparr>node_id = 7, node_title = ''A''\<rparr>,
                                  list_status = \<lparr>status = ''completed'', start_date = None,
                                                  finish_date = None\<rparr>\<rparr>]),
          history_page = (\<lambda>i t. Inr [''Ep 1, watched on 01/04/2021 at 09:00'',
                                      ''Ep 3, watched on 01/03/2021 at 08:00'']),
          put_my_list_status = (\<lambda>i t u. Inr ''<Response [200]>'')\<rparr>
        py_int ''anime'' 1 False None \<lparr>stdin = [''Y''], trace = []\<rparr>) = Some UnboundLocalError"
  by (simp add: py_int_eval engine_eval enumerate_eq_zip session_eval)

subsection \<open>Steps of one iteration\<close>

lemma trace_emit [simp]: "trace (emit x w) = trace w @ [x]"
  and stdin_emit [simp]: "stdin (emit x w) = stdin w"
  by (simp_all add: emit_def)

lemma trace_say [simp]: "trace (say s w) = trace w @ [Print s]"
  and stdin_say [simp]: "stdin (say s w) = stdin w"
  by (simp_all add: say_def)

lemma updates_sent_append [simp]:
  "updates_sent (xs @ ys) = updates_sent xs @ updates_sent ys"
  by (induction xs rule: updates_sent.induct) simp_all

lemma say_all_trace: "trace (foldl (\<lambda>v s. say s v) w ps) = trace w @ map Print ps"
  by (induction ps arbitrary: w) simp_all

lemma say_all_stdin [simp]: "stdin (foldl (\<lambda>v s. say s v) w ps) = stdin w"
  by (induction ps arbitrary: w) simp_all

lemma updates_sent_prints [simp]: "updates_sent (map Print ps) = []"
  by (induction ps) simp_all

lemma updates_sent_say_all [simp]:
  "updates_sent (trace (foldl (\<lambda>v s. say s v) w ps)) = updates_sent (trace w)"
  by (simp add: say_all_trace)

lemma history_line_stdin [simp]: "stdin (history_line list_type h w) = stdin w"
  by (cases h) (simp add: history_line_def)

lemma history_line_updates [simp]:
  "updates_sent (trace (history_line list_type h w)) = updates_sent (trace w)"
  by (cases h) (simp add: history_line_def)

lemma history_lines_stdin [simp]:
  "stdin (foldl (\<lambda>v h. history_line list_type h v) w hs) = stdin w"
  by (induction hs arbitrary: w) simp_all

lemma history_lines_updates [simp]:
  "updates_sent (trace (foldl (\<lambda>v h. history_line list_type h v) w hs)) = updates_sent (trace w)"
  by (induction hs arbitrary: w) simp_all

lemma await_loop_valid:
  "py_upper c \<in> set [''Y'', ''S'', ''F'', ''X''] \<Longrightarrow>
   await_loop (c # rest) tr = (Inr c, rest, tr @ [Prompt choice_prompt])"
  by simp

lemma await_choice_valid:
  assumes "stdin w = c # rest" and "py_upper c \<in> set [''Y'', ''S'', ''F'', ''X'']"
  shows "await_choice w = (Inr c, w\<lparr>stdin := rest, trace := trace w @ [Prompt choice_prompt]\<rparr>)"
  using assms by (simp add: await_choice_def)

lemma fix_entry_reviewed:
  assumes "reviewed start_from loc e"
  shows "fix_entry sv int_str list_type wait_time auto_skip start_from entry_count index e loc w =
         review sv int_str list_type wait_time auto_skip entry_count index e
           (loc\<lparr>start_from_triggered := True\<rparr>) w"
proof -
  have "\<not> (\<not> start_from_triggered loc \<and> Some (node_title (node e)) \<noteq> start_from)"
    using assms by (auto simp: reviewed_def)
  then show ?thesis
    by (simp only: fix_entry_def if_False)
qed

lemma review_retrieve:
  assumes "history_wanted auto_skip e"
  shows "review sv int_str list_type wait_time auto_skip entry_count index e loc w =
         retrieve sv int_str list_type wait_time (node_id (node e)) (status (list_status e))
           (entry_start_date e) (entry_finish_date e) loc
           (say (entry_header index entry_count e) w)"
  using assms by (auto simp add: history_wanted_def review_def Let_def entry_header_def)

lemma retrieve_ok:
  assumes "get_entry_history sv entry_id list_type = Inr history" and "0 \<le> wait_time"
  shows "retrieve sv int_str list_type wait_time entry_id st sd fd loc w =
         propose sv int_str list_type entry_id st sd fd history loc
           (emit (Sleep wait_time)
              (foldl (\<lambda>v h. history_line list_type h v)
                 (emit (GetEntryHistory entry_id list_type) w) history))"
  using assms by (simp add: retrieve_def Let_def)

lemma retrieve_fail:
  assumes "get_entry_history sv entry_id list_type = Inl err"
  shows "retrieve sv int_str list_type wait_time entry_id st sd fd loc w =
         (Raise err, loc, emit (GetEntryHistory entry_id list_type) w)"
  using assms by (simp add: retrieve_def Let_def)

lemma send_update_sent:
  "case send_update sv list_type entry_id upd loc w of
     (fl, loc', w') \<Rightarrow>
       loc' = loc \<and> updates_sent (trace w') = updates_sent (trace w) @ [(entry_id, list_type, upd)]"
  by (simp add: send_update_def Let_def split: sum.split)

lemma decide_F:
  assumes "stdin w = c # rest" and "py_upper c = ''F''"
  shows "decide sv list_type entry_id skip_flag loc w =
         (case dates loc of
            None \<Rightarrow>
              (Raise UnboundLocalError, loc,
               w\<lparr>stdin := rest, trace := trace w @ [Prompt choice_prompt]\<rparr>)
          | Some (sd, fd) \<Rightarrow>
              send_update sv list_type entry_id [(''finish_date'', fd)] loc
                (w\<lparr>stdin := rest, trace := trace w @ [Prompt choice_prompt]\<rparr>))"
proof -
  have "py_upper c \<in> set [''Y'', ''S'', ''F'', ''X'']"
    using assms(2) by simp
  then have "await_choice w =
      (Inr c, w\<lparr>stdin := rest, trace := trace w @ [Prompt choice_prompt]\<rparr>)"
    using assms(1) by (rule await_choice_valid [rotated])
  then show ?thesis
    using assms(2) by (simp add: decide_def action_def split: option.split)
qed

lemma clean_record_error: "clean_record line = Inl err \<Longrightarrow> err = IndexError"
  by (auto simp: clean_record_def py_index_def Let_def split: if_splits)

lemma clean_record_short:
  "length (split_on CHR '' '' line) < 7 \<Longrightarrow> clean_record line = Inl IndexError"
  by (auto simp: clean_record_def py_index_def Let_def)

lemma clean_loop_malformed:
  "line \<in> set raw \<Longrightarrow> length (split_on CHR '' '' line) < 7 \<Longrightarrow>
   clean_loop acc raw = Inl IndexError"
proof (induction raw arbitrary: acc)
  case Nil
  then show ?case by simp
next
  case (Cons h hs)
  show ?case
  proof (cases "clean_record h")
    case (Inl err)
    then show ?thesis
      using clean_record_error [OF Inl] by simp
  next
    case (Inr r)
    with Cons.prems have "h \<noteq> line"
      using clean_record_short by auto
    with Cons.prems have "line \<in> set hs" by simp
    then have "clean_loop (acc @ [r]) hs = Inl IndexError"
      using Cons.prems(2) by (rule Cons.IH)
    with Inr show ?thesis by simp
  qed
qed

lemma get_entry_history_malformed:
  assumes "list_type = ''anime'' \<or> list_type = ''manga''"
    and "history_page sv entry_id list_type = Inr raw"
    and "line \<in> set raw" and "length (split_on CHR '' '' line) < 7"
  shows "get_entry_history sv entry_id list_type = Inl IndexError"
  using assms clean_loop_malformed [of line raw "[]"]
  by (auto simp: get_entry_history_def clean_history_def)

lemmas example_eval =
  example_services_def example_entry_def reviewed_def entry_start_date_def entry_finish_date_def
  unknown_def

subsection \<open>Start date after finish date\<close>

text \<open>
  Claim C3. Let a reviewed entry (one not before the resume point) have both dates
  present, neither of them the placeholder \<open>UNKNOWN\<close>, with the start date greater
  than the finish date as strings. Then, whatever its status and whatever
  \<open>auto_skip\<close> is, the iteration prints the entry, reports the issue and waits for
  one line of input before it goes on to the next entry (or ends with \<open>EOFError\<close>
  when standard input is exhausted). It adds nothing else to the trace: no history is
  requested and no update is sent.
\<close>

theorem date_order_error_flagged:
  assumes "reviewed start_from loc e"
    and "start_date (list_status e) = Some sd" and "finish_date (list_status e) = Some fd"
    and "sd \<noteq> unknown" and "fd \<noteq> unknown" and "sd > fd"
  shows "fix_entry sv int_str list_type wait_time auto_skip start_from entry_count index e loc w =
     (case stdin w of
        [] \<Rightarrow>
          (Raise EOFError, loc\<lparr>start_from_triggered := True\<rparr>,
           w\<lparr>trace := trace w @
              [Print (entry_header index entry_count e),
               Print ''<<< Found an issue. Start date is after finish date'',
               Prompt manual_fix_prompt]\<rparr>)
      | l # ls \<Rightarrow>
          (Next, loc\<lparr>start_from_triggered := True\<rparr>,
           w\<lparr>stdin := ls,
             trace := trace w @
              [Print (entry_header index entry_count e),
               Print ''<<< Found an issue. Start date is after finish date'',
               Prompt manual_fix_prompt,
               Print separator]\<rparr>))"
proof -
  have d: "entry_start_date e = sd" "entry_finish_date e = fd"
    using assms(2,3) by (simp_all add: entry_start_date_def entry_finish_date_def)
  have go: "\<not> (\<not> start_from_triggered loc \<and> Some (node_title (node e)) \<noteq> start_from)"
    using assms(1) by (auto simp: reviewed_def)
  have cond: "entry_start_date e \<noteq> unknown \<and> entry_finish_date e \<noteq> unknown
              \<and> entry_start_date e > entry_finish_date e"
    unfolding d using assms(4,5,6) by blast
  have 1: "fix_entry sv int_str list_type wait_time auto_skip start_from entry_count index e loc w =
           review sv int_str list_type wait_time auto_skip entry_count index e
             (loc\<lparr>start_from_triggered := True\<rparr>) w"
    using go by (simp only: fix_entry_def if_False)
  have 2: "review sv int_str list_type wait_time auto_skip entry_count index e
             (loc\<lparr>start_from_triggered := True\<rparr>) w =
           manual_fix ''<<< Found an issue. Start date is after finish date''
             (loc\<lparr>start_from_triggered := True\<rparr>) (say (entry_header index entry_count e) w)"
    using cond by (simp add: review_def Let_def entry_header_def)
  show ?thesis
    unfolding 1 2
    by (simp add: manual_fix_def py_input_def emit_def say_def split: list.split)
qed

text \<open>Scenario C of the specification, with automatic skipping switched on.\<close>

theorem date_order_error_flagged_witness:
  "fix_entry (example_services [] []) py_int ''anime'' 1 True None 1 0
     (example_entry 7 ''watching'' (Some ''2020-05-01'') (Some ''2020-01-01''))
     \<lparr>start_from_triggered = True, dates = None\<rparr> \<lparr>stdin = [''ok''], trace = []\<rparr>
   = (Next, \<lparr>start_from_triggered = True, dates = None\<rparr>,
      \<lparr>stdin = [],
       trace = [Print (entry_header 0 1
                  (example_entry 7 ''watching'' (Some ''2020-05-01'') (Some ''2020-01-01''))),
                Print ''<<< Found an issue. Start date is after finish date'',
                Prompt manual_fix_prompt,
                Print separator]\<rparr>)"
  using date_order_error_flagged
    [where start_from = None and loc = "\<lparr>start_from_triggered = True, dates = None\<rparr>"
        and e = "example_entry 7 ''watching'' (Some ''2020-05-01'') (Some ''2020-01-01'')"
        and sd = "''2020-05-01''" and fd = "''2020-01-01''" and sv = "example_services [] []"
        and int_str = py_int and list_type = "''anime''" and wait_time = 1 and auto_skip = True
        and entry_count = 1 and index = 0 and w = "\<lparr>stdin = [''ok''], trace = []\<rparr>"]
  by (simp add: example_eval)

subsection \<open>Empty history\<close>

text \<open>
  Claim C4, as amended. Let a reviewed entry have status \<open>completed\<close> and at least
  one date absent, and let its history be fetched and be empty (the pause being
  non-negative). Then the iteration reports that no history is available and waits
  for one line of input before it goes on to the next entry (or ends with
  \<open>EOFError\<close> when standard input is exhausted); \<open>_determine_dates\<close> is not called,
  so the empty history raises nothing.
\<close>

theorem no_history_flagged:
  assumes "reviewed start_from loc e"
    and "status (list_status e) = ''completed''"
    and "entry_start_date e = unknown \<or> entry_finish_date e = unknown"
    and "get_entry_history sv (node_id (node e)) list_type = Inr []"
    and "0 \<le> wait_time"
  shows "fix_entry sv int_str list_type wait_time auto_skip start_from entry_count index e loc w =
     (case stdin w of
        [] \<Rightarrow>
          (Raise EOFError, loc\<lparr>start_from_triggered := True\<rparr>,
           w\<lparr>trace := trace w @
              [Print (entry_header index entry_count e),
               GetEntryHistory (node_id (node e)) list_type,
               Sleep wait_time,
               Print ''<<< Found an issue. No history available'',
               Prompt manual_fix_prompt]\<rparr>)
      | l # ls \<Rightarrow>
          (Next, loc\<lparr>start_from_triggered := True\<rparr>,
           w\<lparr>stdin := ls,
             trace := trace w @
              [Print (entry_header index entry_count e),
               GetEntryHistory (node_id (node e)) list_type,
               Sleep wait_time,
               Print ''<<< Found an issue. No history available'',
               Prompt manual_fix_prompt,
               Print separator]\<rparr>))"
proof -
  have wanted: "history_wanted auto_skip e"
    using assms(2,3) by (auto simp: history_wanted_def)
  have not_both: "\<not> (entry_start_date e \<noteq> unknown \<and> entry_finish_date e \<noteq> unknown)"
    using assms(3) by blast
  have "fix_entry sv int_str list_type wait_time auto_skip start_from entry_count index e loc w =
        propose sv int_str list_type (node_id (node e)) (status (list_status e))
          (entry_start_date e) (entry_finish_date e) [] (loc\<lparr>start_from_triggered := True\<rparr>)
          (emit (Sleep wait_time)
             (emit (GetEntryHistory (node_id (node e)) list_type)
                (say (entry_header index entry_count e) w)))"
    by (simp add: fix_entry_reviewed [OF assms(1)] review_retrieve [OF wanted]
          retrieve_ok [OF assms(4,5)])
  also have "\<dots> = manual_fix ''<<< Found an issue. No history available''
          (loc\<lparr>start_from_triggered := True\<rparr>)
          (emit (Sleep wait_time)
             (emit (GetEntryHistory (node_id (node e)) list_type)
                (say (entry_header index entry_count e) w)))"
    using assms(2) not_both by (auto simp add: propose_def)
  finally show ?thesis
    by (simp add: manual_fix_def py_input_def emit_def say_def split: list.split)
qed

text \<open>Scenario B of the specification.\<close>

theorem no_history_flagged_witness:
  "fix_entry (example_services [] []) py_int ''anime'' 1 False None 1 0
     (example_entry 7 ''completed'' None None)
     \<lparr>start_from_triggered = True, dates = None\<rparr> \<lparr>stdin = [''ok''], trace = []\<rparr>
   = (Next, \<lparr>start_from_triggered = True, dates = None\<rparr>,
      \<lparr>stdin = [],
       trace = [Print (entry_header 0 1 (example_entry 7 ''completed'' None None)),
                GetEntryHistory 7 ''anime'',
                Sleep 1,
                Print ''<<< Found an issue. No history available'',
                Prompt manual_fix_prompt,
                Print separator]\<rparr>)"
proof -
  have h: "get_entry_history (example_services [] [])
             (node_id (node (example_entry 7 ''completed'' None None))) ''anime'' = Inr []"
    by (simp add: get_entry_history_def clean_history_def example_services_def)
  show ?thesis
    using no_history_flagged
      [where start_from = None and loc = "\<lparr>start_from_triggered = True, dates = None\<rparr>"
          and e = "example_entry 7 ''completed'' None None" and sv = "example_services [] []"
          and int_str = py_int and list_type = "''anime''" and wait_time = 1 and auto_skip = False
          and entry_count = 1 and index = 0 and w = "\<lparr>stdin = [''ok''], trace = []\<rparr>",
          OF _ _ _ h]
    by (simp add: example_eval)
qed

text \<open>
  For an entry that is not completed the empty history is not reported: with
  \<open>auto_skip\<close> off the history is fetched, the proposal is to skip the entry for its
  status, and the session asks for a choice.
\<close>

theorem no_history_flagged_counterexample:
  "fix_entry (example_services [] []) py_int ''anime'' 1 False None 1 0
     (example_entry 7 ''watching'' None None)
     \<lparr>start_from_triggered = True, dates = None\<rparr> \<lparr>stdin = [''S''], trace = []\<rparr>
   = (Next, \<lparr>start_from_triggered = True, dates = None\<rparr>,
      \<lparr>stdin = [],
       trace = [Print (entry_header 0 1 (example_entry 7 ''watching'' None None)),
                GetEntryHistory 7 ''anime'',
                Sleep 1,
                Print ''<<< Proposed change: Skip entry as the status is not completed'',
                Prompt choice_prompt,
                Print ''<<< Skipping current entry on user request'',
                Print separator]\<rparr>)"
  by (simp add: session_eval example_eval entry_header_def)

subsection \<open>A record that does not have the expected layout\<close>

text \<open>
  Claim C7, as amended. Let the history of a reviewed entry be requested, and let the
  page hold a record with fewer than seven space-separated tokens. Then the normalizer
  raises \<open>IndexError\<close> for the whole history (no record is dropped and no partial
  history is used), nothing catches it, and the loop over the entries ends with that
  exception right after the history request: no issue is reported, no input is read
  and the remaining entries are not processed.
\<close>

theorem malformed_record_ends_session:
  assumes "reviewed start_from loc e"
    and "history_wanted auto_skip e"
    and "list_type = ''anime'' \<or> list_type = ''manga''"
    and "history_page sv (node_id (node e)) list_type = Inr raw"
    and "line \<in> set raw" and "length (split_on CHR '' '' line) < 7"
  shows "entries_loop sv int_str list_type wait_time auto_skip start_from entry_count index (e # es) loc w =
     (Some IndexError, loc\<lparr>start_from_triggered := True\<rparr>,
      w\<lparr>trace := trace w @
         [Print (entry_header index entry_count e),
          GetEntryHistory (node_id (node e)) list_type]\<rparr>)"
proof -
  have "get_entry_history sv (node_id (node e)) list_type = Inl IndexError"
    using assms(3-6) by (rule get_entry_history_malformed)
  then have "fix_entry sv int_str list_type wait_time auto_skip start_from entry_count index e loc w =
     (Raise IndexError, loc\<lparr>start_from_triggered := True\<rparr>,
      emit (GetEntryHistory (node_id (node e)) list_type)
        (say (entry_header index entry_count e) w))"
    by (simp add: fix_entry_reviewed [OF assms(1)] review_retrieve [OF assms(2)] retrieve_fail)
  then show ?thesis
    by (simp add: emit_def say_def)
qed

theorem malformed_record_ends_session_witness:
  "entries_loop
     (example_services [] [''Ep 1, watched on 01/17/2021 at 21:13'', ''Ep 2, watched''])
     py_int ''anime'' 1 False None 2 0
     [example_entry 7 ''completed'' None None, example_entry 8 ''completed'' None None]
     \<lparr>start_from_triggered = True, dates = None\<rparr> \<lparr>stdin = [''Y'', ''Y''], trace = []\<rparr>
   = (Some IndexError, \<lparr>start_from_triggered = True, dates = None\<rparr>,
      \<lparr>stdin = [''Y'', ''Y''],
       trace = [Print (entry_header 0 2 (example_entry 7 ''completed'' None None)),
                GetEntryHistory 7 ''anime'']\<rparr>)"
proof -
  have p: "history_page
             (example_services [] [''Ep 1, watched on 01/17/2021 at 21:13'', ''Ep 2, watched''])
             (node_id (node (example_entry 7 ''completed'' None None))) ''anime''
           = Inr [''Ep 1, watched on 01/17/2021 at 21:13'', ''Ep 2, watched'']"
    by (simp add: example_services_def)
  have m: "''Ep 2, watched'' \<in> set [''Ep 1, watched on 01/17/2021 at 21:13'', ''Ep 2, watched'']"
    by simp
  have s: "length (split_on CHR '' '' ''Ep 2, watched'') < 7"
    by simp
  have r: "reviewed None \<lparr>start_from_triggered = True, dates = None\<rparr>
             (example_entry 7 ''completed'' None None)"
    by (simp add: reviewed_def)
  have w: "history_wanted False (example_entry 7 ''completed'' None None)"
    by (simp add: history_wanted_def example_eval)
  have i: "node_id (node (example_entry 7 ''completed'' None None)) = 7"
    by (simp add: example_entry_def)
  have "entries_loop
     (example_services [] [''Ep 1, watched on 01/17/2021 at 21:13'', ''Ep 2, watched''])
     py_int ''anime'' 1 False None 2 0
     (example_entry 7 ''completed'' None None # [example_entry 8 ''completed'' None None])
     \<lparr>start_from_triggered = True, dates = None\<rparr> \<lparr>stdin = [''Y'', ''Y''], trace = []\<rparr>
   = (Some IndexError, \<lparr>start_from_triggered = True, dates = None\<rparr>
        \<lparr>start_from_triggered := True\<rparr>,
      \<lparr>stdin = [''Y'', ''Y''], trace = []\<rparr>
        \<lparr>trace := trace \<lparr>stdin = [''Y'', ''Y''], trace = []\<rparr> @
           [Print (entry_header 0 2 (example_entry 7 ''completed'' None None)),
            GetEntryHistory (node_id (node (example_entry 7 ''completed'' None None)))
              ''anime'']\<rparr>)"
    by (rule malformed_record_ends_session [OF r w _ p m s]) simp
  then show ?thesis
    unfolding i by simp
qed

text \<open>
  The whole session on a list of one completed entry whose second record is cut short:
  it ends with \<open>IndexError\<close>, and the trace holds neither the report of a missing
  history nor a prompt.
\<close>

theorem malformed_record_counterexample:
  "date_fixer
     (example_services [example_entry 7 ''completed'' None None]
        [''Ep 1, watched on 01/17/2021 at 21:13'', ''Ep 2, watched''])
     py_int ''anime'' 1 False None \<lparr>stdin = [''Y''], trace = []\<rparr>
   = (Some IndexError,
      \<lparr>stdin = [''Y''],
       trace = [Print (entry_header 0 1 (example_entry 7 ''completed'' None None)),
                GetEntryHistory 7 ''anime'']\<rparr>)"
  by (simp add: session_eval example_eval entry_header_def)

subsection \<open>The choice \<open>F\<close> on an inferred proposal\<close>

text \<open>
  Claim C8. Let a reviewed entry be completed with at least one date absent, let its
  history be fetched, be non-empty and let \<open>_determine_dates\<close> return a start and a
  finish date for it, and let the next input line be \<open>F\<close> (in either case). Then
  exactly one update request is sent for the entry, and its dictionary holds the single
  key \<open>finish_date\<close> with the inferred finish date: no \<open>start_date\<close> is sent.
\<close>

theorem finish_date_only_update:
  assumes "reviewed start_from loc e"
    and "status (list_status e) = ''completed''"
    and "entry_start_date e = unknown \<or> entry_finish_date e = unknown"
    and "get_entry_history sv (node_id (node e)) list_type = Inr history"
    and "history \<noteq> []" and "0 \<le> wait_time"
    and "snd (determine_dates int_str history) = Inr (sd, fd)"
    and "stdin w = c # rest" and "py_upper c = ''F''"
  shows "case fix_entry sv int_str list_type wait_time auto_skip start_from entry_count index e loc w of
           (fl, loc', w') \<Rightarrow>
             updates_sent (trace w') =
               updates_sent (trace w) @ [(node_id (node e), list_type, [(''finish_date'', fd)])]
             \<and> dates loc' = Some (sd, fd)"
proof -
  let ?loc = "loc\<lparr>start_from_triggered := True\<rparr>"
  let ?w1 = "emit (Sleep wait_time)
               (foldl (\<lambda>v h. history_line list_type h v)
                  (emit (GetEntryHistory (node_id (node e)) list_type)
                     (say (entry_header index entry_count e) w)) history)"
  obtain printed where dd: "determine_dates int_str history = (printed, Inr (sd, fd))"
    using assms(7) by (cases "determine_dates int_str history") simp
  let ?w2 = "say (''<<< Proposed change: Set start date to '' @ sd @ ''. Set finish date to '' @ fd)
               (foldl (\<lambda>v s. say s v) ?w1 printed)"
  let ?w3 = "?w2\<lparr>stdin := rest, trace := trace ?w2 @ [Prompt choice_prompt]\<rparr>"
  have wanted: "history_wanted auto_skip e"
    using assms(2,3) by (auto simp: history_wanted_def)
  have not_both: "\<not> (entry_start_date e \<noteq> unknown \<and> entry_finish_date e \<noteq> unknown)"
    using assms(3) by blast
  have "fix_entry sv int_str list_type wait_time auto_skip start_from entry_count index e loc w =
        propose sv int_str list_type (node_id (node e)) (status (list_status e))
          (entry_start_date e) (entry_finish_date e) history ?loc ?w1"
    by (simp add: fix_entry_reviewed [OF assms(1)] review_retrieve [OF wanted]
          retrieve_ok [OF assms(4,6)])
  also have "\<dots> = decide sv list_type (node_id (node e)) False (?loc\<lparr>dates := Some (sd, fd)\<rparr>) ?w2"
    using assms(2,5) not_both by (auto simp add: propose_def dd)
  also have "\<dots> = send_update sv list_type (node_id (node e)) [(''finish_date'', fd)]
                      (?loc\<lparr>dates := Some (sd, fd)\<rparr>) ?w3"
  proof -
    have "stdin ?w2 = c # rest"
      using assms(8) by simp
    then show ?thesis
      using assms(9) by (simp add: decide_F)
  qed
  finally have eq: "fix_entry sv int_str list_type wait_time auto_skip start_from entry_count index e loc w =
      send_update sv list_type (node_id (node e)) [(''finish_date'', fd)]
        (?loc\<lparr>dates := Some (sd, fd)\<rparr>) ?w3" .
  have "updates_sent (trace ?w3) = updates_sent (trace w)"
    by simp
  then show ?thesis
    unfolding eq
    using send_update_sent [where sv = sv and list_type = list_type
        and entry_id = "node_id (node e)" and upd = "[(''finish_date'', fd)]"
        and loc = "?loc\<lparr>dates := Some (sd, fd)\<rparr>" and w = ?w3]
    by (auto split: prod.splits)
qed

text \<open>
  Scenario D of the specification: the entry already has the start date 2021-01-01, the
  history is that of scenario A.
\<close>

theorem finish_date_only_update_witness:
  "case fix_entry
          (example_services []
             [''Ep 3, watched on 01/05/2021 at 10:00'', ''Ep 2, watched on 01/04/2021 at 09:00'',
              ''Ep 1, watched on 01/03/2021 at 08:00''])
          py_int ''anime'' 1 False None 1 0
          (example_entry 7 ''completed'' (Some ''2021-01-01'') None)
          \<lparr>start_from_triggered = True, dates = None\<rparr> \<lparr>stdin = [''F''], trace = []\<rparr> of
     (fl, loc', w') \<Rightarrow>
       updates_sent (trace w') = [(7, ''anime'', [(''finish_date'', ''2021-01-05'')])]
       \<and> dates loc' = Some (''2021-01-03'', ''2021-01-05'')"
proof -
  let ?sv = "example_services []
             [''Ep 3, watched on 01/05/2021 at 10:00'', ''Ep 2, watched on 01/04/2021 at 09:00'',
              ''Ep 1, watched on 01/03/2021 at 08:00'']"
  let ?e = "example_entry 7 ''completed'' (Some ''2021-01-01'') None"
  let ?h = "[(''3'', ''2021-01-05'', ''10:00''), (''2'', ''2021-01-04'', ''09:00''),
             (''1'', ''2021-01-03'', ''08:00'')]"
  have h: "get_entry_history ?sv (node_id (node ?e)) ''anime'' = Inr ?h"
    by (simp add: get_entry_history_def clean_history_def clean_record_def py_index_def
          convert_wdate_def example_services_def)
  have d: "snd (determine_dates py_int ?h) = Inr (''2021-01-03'', ''2021-01-05'')"
    by (simp add: py_int_eval engine_eval enumerate_eq_zip)
  have r: "reviewed None \<lparr>start_from_triggered = True, dates = None\<rparr> ?e"
    by (simp add: reviewed_def)
  have u: "py_upper ''F'' = ''F''"
    by (simp add: py_upper_def upper_char_def)
  show ?thesis
    using finish_date_only_update
      [where int_str = py_int and wait_time = 1 and auto_skip = False and entry_count = 1
        and index = 0 and w = "\<lparr>stdin = [''F''], trace = []\<rparr>" and rest = "[]",
        OF r _ _ h _ _ d _ u]
    by (simp add: example_eval)
qed

subsection \<open>The choice \<open>F\<close> on a proposal to skip\<close>

lemma finish_on_skip_proposal_step:
  assumes "reviewed start_from loc e"
    and "\<not> auto_skip"
    and "status (list_status e) \<noteq> ''completed''
         \<or> (entry_start_date e \<noteq> unknown \<and> entry_finish_date e \<noteq> unknown)"
    and "\<not> (entry_start_date e \<noteq> unknown \<and> entry_finish_date e \<noteq> unknown
           \<and> entry_start_date e > entry_finish_date e)"
    and "get_entry_history sv (node_id (node e)) list_type = Inr history"
    and "0 \<le> wait_time"
    and "stdin w = c # rest" and "py_upper c = ''F''"
  shows "case fix_entry sv int_str list_type wait_time auto_skip start_from entry_count index e loc w of
           (fl, loc', w') \<Rightarrow>
             dates loc' = dates loc
             \<and> (case dates loc of
                  None \<Rightarrow>
                    fl = Raise UnboundLocalError
                    \<and> updates_sent (trace w') = updates_sent (trace w)
                | Some (sd0, fd0) \<Rightarrow>
                    updates_sent (trace w') =
                      updates_sent (trace w)
                      @ [(node_id (node e), list_type, [(''finish_date'', fd0)])])"
proof -
  let ?loc = "loc\<lparr>start_from_triggered := True\<rparr>"
  let ?w1 = "emit (Sleep wait_time)
               (foldl (\<lambda>v h. history_line list_type h v)
                  (emit (GetEntryHistory (node_id (node e)) list_type)
                     (say (entry_header index entry_count e) w)) history)"
  have wanted: "history_wanted auto_skip e"
    using assms(2,4) by (auto simp: history_wanted_def)
  have "fix_entry sv int_str list_type wait_time auto_skip start_from entry_count index e loc w =
        propose sv int_str list_type (node_id (node e)) (status (list_status e))
          (entry_start_date e) (entry_finish_date e) history ?loc ?w1"
    by (simp add: fix_entry_reviewed [OF assms(1)] review_retrieve [OF wanted]
          retrieve_ok [OF assms(5,6)])
  moreover have "\<exists>msg. propose sv int_str list_type (node_id (node e)) (status (list_status e))
          (entry_start_date e) (entry_finish_date e) history ?loc ?w1 =
        decide sv list_type (node_id (node e)) True ?loc (say msg ?w1)"
  proof (cases "status (list_status e) \<noteq> ''completed''")
    case True
    then have "propose sv int_str list_type (node_id (node e)) (status (list_status e))
          (entry_start_date e) (entry_finish_date e) history ?loc ?w1 =
        decide sv list_type (node_id (node e)) True ?loc
          (say ''<<< Proposed change: Skip entry as the status is not completed'' ?w1)"
      by (simp add: propose_def)
    then show ?thesis by blast
  next
    case False
    with assms(3) have "propose sv int_str list_type (node_id (node e)) (status (list_status e))
          (entry_start_date e) (entry_finish_date e) history ?loc ?w1 =
        decide sv list_type (node_id (node e)) True ?loc
          (say ''<<< Proposed change: Skip entry as the start and end date are already populated''
             ?w1)"
      by (simp add: propose_def)
    then show ?thesis by blast
  qed
  ultimately obtain msg where
    eq: "fix_entry sv int_str list_type wait_time auto_skip start_from entry_count index e loc w =
      decide sv list_type (node_id (node e)) True ?loc (say msg ?w1)"
    by auto
  let ?w3 = "(say msg ?w1)\<lparr>stdin := rest, trace := trace (say msg ?w1) @ [Prompt choice_prompt]\<rparr>"
  have in1: "stdin (say msg ?w1) = c # rest"
    using assms(7) by simp
  have sent: "updates_sent (trace ?w3) = updates_sent (trace w)"
    by simp
  show ?thesis
  proof (cases "dates loc")
    case None
    then show ?thesis
      unfolding eq decide_F [OF in1 assms(8)] using sent by simp
  next
    case (Some p)
    obtain sd0 fd0 where p: "p = (sd0, fd0)" by (cases p)
    show ?thesis
      unfolding eq decide_F [OF in1 assms(8)]
      using Some p sent
        send_update_sent [where sv = sv and list_type = list_type
          and entry_id = "node_id (node e)" and upd = "[(''finish_date'', fd0)]"
          and loc = ?loc and w = ?w3]
      by (auto split: prod.splits)
  qed
qed

lemma send_update_locals: "fst (snd (send_update sv list_type entry_id upd loc w)) = loc"
  by (simp add: send_update_def Let_def split: sum.split)

lemma action_locals:
  "fst (snd (action sv list_type entry_id skip_flag user_choice loc w)) = loc"
  by (simp add: action_def send_update_locals split: option.split)

lemma decide_locals: "fst (snd (decide sv list_type entry_id skip_flag loc w)) = loc"
  by (simp add: decide_def action_locals split: prod.split sum.split)

lemma manual_fix_locals: "fst (snd (manual_fix issue loc w)) = loc"
  by (simp add: manual_fix_def split: prod.split sum.split)

lemma propose_locals:
  "fst (snd (propose sv int_str list_type entry_id st sd fd history loc w)) =
     (if st = ''completed'' \<and> \<not> (sd \<noteq> unknown \<and> fd \<noteq> unknown) \<and> history \<noteq> []
      then (case snd (determine_dates int_str history) of
              Inl err \<Rightarrow> loc
            | Inr p \<Rightarrow> loc\<lparr>dates := Some p\<rparr>)
      else loc)"
  by (cases "determine_dates int_str history")
     (auto simp: propose_def decide_locals manual_fix_locals split: sum.split)

lemma retrieve_locals:
  "fst (snd (retrieve sv int_str list_type wait_time entry_id st sd fd loc w)) =
     (case get_entry_history sv entry_id list_type of
        Inl err \<Rightarrow> loc
      | Inr history \<Rightarrow>
          if 0 \<le> wait_time \<and> st = ''completed'' \<and> \<not> (sd \<noteq> unknown \<and> fd \<noteq> unknown)
             \<and> history \<noteq> []
          then (case snd (determine_dates int_str history) of
                  Inl err \<Rightarrow> loc
                | Inr p \<Rightarrow> loc\<lparr>dates := Some p\<rparr>)
          else loc)"
  by (auto simp: retrieve_def Let_def propose_locals split: sum.split)

lemma review_locals:
  "fst (snd (review sv int_str list_type wait_time auto_skip entry_count index e loc w)) =
     (case inference sv int_str list_type wait_time auto_skip e of
        None \<Rightarrow> loc
      | Some p \<Rightarrow> loc\<lparr>dates := Some p\<rparr>)"
proof (cases "history_wanted auto_skip e")
  case True
  then show ?thesis
    by (auto simp: review_retrieve retrieve_locals inference_def split: sum.split)
next
  case False
  then have "inference sv int_str list_type wait_time auto_skip e = None"
    by (simp add: inference_def)
  moreover from False
  have "fst (snd (review sv int_str list_type wait_time auto_skip entry_count index e loc w)) = loc"
    by (auto simp: history_wanted_def review_def Let_def manual_fix_locals)
  ultimately show ?thesis
    by simp
qed

lemma fix_entry_locals:
  "fst (snd (fix_entry sv int_str list_type wait_time auto_skip start_from entry_count index e loc w))
   = locals_step sv int_str list_type wait_time auto_skip start_from loc e"
proof (cases "reviewed start_from loc e")
  case True
  then show ?thesis
    by (simp add: fix_entry_reviewed review_locals locals_step_def split: option.split)
next
  case False
  then show ?thesis
    by (auto simp: fix_entry_def reviewed_def locals_step_def)
qed

lemma entries_before_locals:
  "entries_before sv int_str list_type wait_time auto_skip start_from entry_count index es loc w
     = Some (loc1, w1) \<Longrightarrow>
   loc1 = locals_after sv int_str list_type wait_time auto_skip start_from loc es"
proof (induction es arbitrary: index loc w)
  case Nil
  then show ?case by simp
next
  case (Cons e es)
  obtain fl loc2 w2 where
    step: "fix_entry sv int_str list_type wait_time auto_skip start_from entry_count index e loc w
           = (fl, loc2, w2)"
    by (cases "fix_entry sv int_str list_type wait_time auto_skip start_from entry_count index e loc w")
  then have loc2: "loc2 = locals_step sv int_str list_type wait_time auto_skip start_from loc e"
    using fix_entry_locals
      [of sv int_str list_type wait_time auto_skip start_from entry_count index e loc w]
    by simp
  from Cons.prems step have fl: "fl = Next"
    by (cases fl) simp_all
  with Cons.prems step
  have "entries_before sv int_str list_type wait_time auto_skip start_from entry_count (Suc index)
          es loc2 w2 = Some (loc1, w1)"
    by simp
  then have "loc1 = locals_after sv int_str list_type wait_time auto_skip start_from loc2 es"
    by (rule Cons.IH)
  with loc2 show ?case
    by simp
qed

lemma entries_loop_append:
  "entries_before sv int_str list_type wait_time auto_skip start_from entry_count index es loc w
     = Some (loc1, w1) \<Longrightarrow>
   entries_loop sv int_str list_type wait_time auto_skip start_from entry_count index (es @ es') loc w
   = entries_loop sv int_str list_type wait_time auto_skip start_from entry_count
       (index + length es) es' loc1 w1"
proof (induction es arbitrary: index loc w)
  case Nil
  then show ?case by simp
next
  case (Cons e es)
  obtain fl loc2 w2 where
    step: "fix_entry sv int_str list_type wait_time auto_skip start_from entry_count index e loc w
           = (fl, loc2, w2)"
    by (cases "fix_entry sv int_str list_type wait_time auto_skip start_from entry_count index e loc w")
  from Cons.prems step have fl: "fl = Next"
    by (cases fl) simp_all
  with Cons.prems step
  have "entries_before sv int_str list_type wait_time auto_skip start_from entry_count (Suc index)
          es loc2 w2 = Some (loc1, w1)"
    by simp
  then have "entries_loop sv int_str list_type wait_time auto_skip start_from entry_count
               (Suc index) (es @ es') loc2 w2
             = entries_loop sv int_str list_type wait_time auto_skip start_from entry_count
                 (Suc index + length es) es' loc1 w1"
    by (rule Cons.IH)
  with step fl show ?case
    by simp
qed

text \<open>
  Claim C10. Let the iterations for the entries \<open>es\<close> all go on to the next entry,
  and let the entry \<open>e\<close> that follows them reach a proposal to skip (it is reviewed,
  automatic skipping is off, the date-order check passes, the history is fetched, and
  the status is not \<open>completed\<close> or both dates are present), so that
  \<open>_determine_dates\<close> is not called for it, and let the next input line be \<open>F\<close>.
  The entry is not skipped: the update is built from the local variable
  \<open>finish_date\<close>, which this iteration does not assign. If an entry of \<open>es\<close> was
  inferred, one update request is sent for \<open>e\<close> whose single field is the finish date
  inferred for the most recent such entry, whatever the history of \<open>e\<close> is. If none
  was, and the variable was unbound when the loop began, as it is at the start of a
  session, reading it raises \<open>UnboundLocalError\<close>: the loop ends with that exception
  and no update request is sent for \<open>e\<close>.
\<close>

theorem finish_only_on_skip_proposal:
  assumes before: "entries_before sv int_str list_type wait_time auto_skip start_from entry_count
                     index es loc0 w0 = Some (loc1, w1)"
    and "reviewed start_from loc1 e"
    and "\<not> auto_skip"
    and "status (list_status e) \<noteq> ''completed''
         \<or> (entry_start_date e \<noteq> unknown \<and> entry_finish_date e \<noteq> unknown)"
    and "\<not> (entry_start_date e \<noteq> unknown \<and> entry_finish_date e \<noteq> unknown
           \<and> entry_start_date e > entry_finish_date e)"
    and "get_entry_history sv (node_id (node e)) list_type = Inr history"
    and "0 \<le> wait_time"
    and "stdin w1 = c # rest" and "py_upper c = ''F''"
  shows "case entries_loop sv int_str list_type wait_time auto_skip start_from entry_count index
                (es @ [e]) loc0 w0 of
           (r, loc', w') \<Rightarrow>
             (case dates (locals_after sv int_str list_type wait_time auto_skip start_from loc0 es) of
                None \<Rightarrow>
                  r = Some UnboundLocalError
                  \<and> updates_sent (trace w') = updates_sent (trace w1)
              | Some (sd0, fd0) \<Rightarrow>
                  updates_sent (trace w') =
                    updates_sent (trace w1)
                    @ [(node_id (node e), list_type, [(''finish_date'', fd0)])])"
proof -
  have loc1: "loc1 = locals_after sv int_str list_type wait_time auto_skip start_from loc0 es"
    using before by (rule entries_before_locals)
  obtain fl loc2 w2 where
    step: "fix_entry sv int_str list_type wait_time auto_skip start_from entry_count
             (index + length es) e loc1 w1 = (fl, loc2, w2)"
    by (cases "fix_entry sv int_str list_type wait_time auto_skip start_from entry_count
                 (index + length es) e loc1 w1")
  have one: "dates loc2 = dates loc1
             \<and> (case dates loc1 of
                  None \<Rightarrow>
                    fl = Raise UnboundLocalError
                    \<and> updates_sent (trace w2) = updates_sent (trace w1)
                | Some (sd0, fd0) \<Rightarrow>
                    updates_sent (trace w2) =
                      updates_sent (trace w1)
                      @ [(node_id (node e), list_type, [(''finish_date'', fd0)])])"
    using finish_on_skip_proposal_step
      [where int_str = int_str and entry_count = entry_count and index = "index + length es",
        OF assms(2-9)]
    by (simp add: step)
  have loop: "entries_loop sv int_str list_type wait_time auto_skip start_from entry_count index
                (es @ [e]) loc0 w0
              = (case fl of Next \<Rightarrow> (None, loc2, w2) | Exit \<Rightarrow> (None, loc2, w2)
                 | Raise err \<Rightarrow> (Some err, loc2, w2))"
    by (simp add: entries_loop_append [OF before] step split: flow.split)
  show ?thesis
    unfolding loop loc1 [symmetric]
    using one by (cases fl) (auto split: option.splits)
qed

text \<open>
  A session of two entries: for the first, completed and without dates, the dates
  2021-01-03 and 2021-01-05 are inferred and accepted with \<open>Y\<close>; the second has status
  \<open>watching\<close> and a history of its own from 2022, and \<open>F\<close> sends the finish date of
  the first.
\<close>

theorem finish_only_on_skip_proposal_witness:
  "case entries_loop
          \<lparr>get_list = (\<lambda>t. Inr []),
            history_page = (\<lambda>i t. if i = 7
               then Inr [''Ep 3, watched on 01/05/2021 at 10:00'',
                         ''Ep 2, watched on 01/04/2021 at 09:00'',
                         ''Ep 1, watched on 01/03/2021 at 08:00'']
               else Inr [''Ep 9, watched on 03/09/2022 at 07:00'']),
            put_my_list_status = (\<lambda>i t u. Inr ''<Response [200]>'')\<rparr>
          py_int ''anime'' 1 False None 2 0
          ([example_entry 7 ''completed'' None None] @ [example_entry 8 ''watching'' None None])
          \<lparr>start_from_triggered = True, dates = None\<rparr>
          \<lparr>stdin = [''Y'', ''F''], trace = []\<rparr> of
     (r, loc', w') \<Rightarrow>
       updates_sent (trace w') =
         [(7, ''anime'', [(''start_date'', ''2021-01-03''), (''finish_date'', ''2021-01-05'')]),
          (8, ''anime'', [(''finish_date'', ''2021-01-05'')])]"
proof -
  let ?sv = "\<lparr>get_list = (\<lambda>t. Inr []),
            history_page = (\<lambda>i t. if i = (7::int)
               then Inr [''Ep 3, watched on 01/05/2021 at 10:00'',
                         ''Ep 2, watched on 01/04/2021 at 09:00'',
                         ''Ep 1, watched on 01/03/2021 at 08:00'']
               else Inr [''Ep 9, watched on 03/09/2022 at 07:00'']),
            put_my_list_status = (\<lambda>i t u. Inr ''<Response [200]>'')\<rparr>"
  let ?e7 = "example_entry 7 ''completed'' None None"
  let ?e8 = "example_entry 8 ''watching'' None None"
  let ?loc0 = "\<lparr>start_from_triggered = True, dates = None\<rparr>"
  let ?w0 = "\<lparr>stdin = [''Y'', ''F''], trace = []\<rparr>"
  have "\<exists>loc1 w1.
          entries_before ?sv py_int ''anime'' 1 False None 2 0 [?e7] ?loc0 ?w0 = Some (loc1, w1)
          \<and> start_from_triggered loc1
          \<and> dates loc1 = Some (''2021-01-03'', ''2021-01-05'')
          \<and> stdin w1 = [''F'']
          \<and> updates_sent (trace w1) =
              [(7, ''anime'', [(''start_date'', ''2021-01-03''), (''finish_date'', ''2021-01-05'')])]"
    by (simp add: session_eval example_eval py_int_eval engine_eval enumerate_eq_zip)
  then obtain loc1 w1 where
    before: "entries_before ?sv py_int ''anime'' 1 False None 2 0 [?e7] ?loc0 ?w0 = Some (loc1, w1)"
    and trig: "start_from_triggered loc1"
    and d1: "dates loc1 = Some (''2021-01-03'', ''2021-01-05'')"
    and in1: "stdin w1 = [''F'']"
    and u1: "updates_sent (trace w1) =
              [(7, ''anime'', [(''start_date'', ''2021-01-03''), (''finish_date'', ''2021-01-05'')])]"
    by blast
  have la: "dates (locals_after ?sv py_int ''anime'' 1 False None ?loc0 [?e7])
            = Some (''2021-01-03'', ''2021-01-05'')"
    using entries_before_locals [OF before] d1 by simp
  have r: "reviewed None loc1 ?e8"
    using trig by (simp add: reviewed_def)
  have h: "get_entry_history ?sv (node_id (node ?e8)) ''anime''
           = Inr [(''9'', ''2022-03-09'', ''07:00'')]"
    by (simp add: get_entry_history_def clean_history_def clean_record_def py_index_def
          convert_wdate_def example_entry_def)
  have u: "py_upper ''F'' = ''F''"
    by (simp add: py_upper_def upper_char_def)
  have i: "node_id (node ?e8) = 8"
    by (simp add: example_entry_def)
  have "case entries_loop ?sv py_int ''anime'' 1 False None 2 0 ([?e7] @ [?e8]) ?loc0 ?w0 of
          (r, loc', w') \<Rightarrow>
            (case dates (locals_after ?sv py_int ''anime'' 1 False None ?loc0 [?e7]) of
               None \<Rightarrow>
                 r = Some UnboundLocalError
                 \<and> updates_sent (trace w') = updates_sent (trace w1)
             | Some (sd0, fd0) \<Rightarrow>
                 updates_sent (trace w') =
                   updates_sent (trace w1)
                   @ [(node_id (node ?e8), ''anime'', [(''finish_date'', fd0)])])"
    by (rule finish_only_on_skip_proposal [OF before r _ _ _ h _ in1 u])
       (simp_all add: example_eval)
  then show ?thesis
    unfolding la u1 i by (simp split: prod.splits)
qed

end
